theory Spec2Isabelle
  imports Main
begin

section \<open>Bytes, strings and errors\<close>

text \<open>
  A Go \<^verbatim>\<open>string\<close> is a sequence of bytes, so it is a \<^typ>\<open>string\<close> (a list of
  8-bit characters) here and \<open>length\<close> counts bytes, as Go's \<^verbatim>\<open>len\<close> does.
\<close>

definition CR :: char where
  "CR = CHR 0x0D"

definition LF :: char where
  "LF = CHR 0x0A"

definition CRLF :: string where
  "CRLF = [CR, LF]"

text \<open>
  Go's \<^verbatim>\<open>error\<close> values that occur in the program: \<^verbatim>\<open>io.EOF\<close>, any other error of
  the transport, the two errors of \<^verbatim>\<open>strconv\<close>, and the three errors the program makes
  with \<^verbatim>\<open>fmt.Errorf\<close> (two of them wrap their cause with \<^verbatim>\<open>%w\<close>).
\<close>

datatype error =
    EOF
  | TransportError
  | ErrSyntax
  | ErrRange
  | BufferIsTooLarge
  | SomethingWentWrong error
  | AnErrorOccurred error

text \<open>A run-time panic ends the goroutine (and the process) without a return value.\<close>

datatype panic = IndexOutOfRange | SliceBoundsOutOfRange

datatype 'a result = Returned 'a | Failed error | Panicked panic

section \<open>The library functions the parser calls\<close>

subsection \<open>\<^verbatim>\<open>strings.Split\<close>, \<^verbatim>\<open>strings.SplitN\<close>\<close>

text \<open>
  \<^verbatim>\<open>strings.Split(s, " ")\<close> cuts at every single separator byte: \<open>n\<close> separators give
  \<open>n + 1\<close> pieces, empty pieces included. (The result is never the empty list, so
  the last case below is never taken.)
\<close>

fun Split :: "string \<Rightarrow> char \<Rightarrow> string list" where
  "Split [] sep = [[]]"
| "Split (c # cs) sep =
     (if c = sep then [] # Split cs sep
      else (case Split cs sep of
              t # ts \<Rightarrow> (c # t) # ts
            | [] \<Rightarrow> [[c]]))"

text \<open>\<^verbatim>\<open>strings.SplitN(s, ":", 2)\<close> cuts at the first separator only.\<close>

definition SplitN2 :: "string \<Rightarrow> char \<Rightarrow> string list" where
  "SplitN2 s sep =
     (if sep \<in> set s
      then [takeWhile (\<lambda>c. c \<noteq> sep) s, tl (dropWhile (\<lambda>c. c \<noteq> sep) s)]
      else [s])"

subsection \<open>\<^verbatim>\<open>strings.TrimSpace\<close>\<close>

text \<open>
  \<^verbatim>\<open>TrimSpace\<close> removes leading and trailing white space as Unicode defines it. In
  UTF-8 these are the six ASCII bytes \<open>\t \n \v \f \r\<close> and space, the two-byte
  encodings of U+0085 and U+00A0, and the three-byte encodings of U+1680,
  U+2000..U+200A, U+2028, U+2029, U+202F, U+205F and U+3000. A byte that starts no
  such encoding stops the trimming.
\<close>

definition asciiSpace :: "char \<Rightarrow> bool" where
  "asciiSpace c = (c \<in> set [CHR 0x09, CHR 0x0A, CHR 0x0B, CHR 0x0C, CHR 0x0D, CHR 0x20])"

definition space2 :: "char \<Rightarrow> char \<Rightarrow> bool" where
  "space2 a b = (a = CHR 0xC2 \<and> (b = CHR 0x85 \<or> b = CHR 0xA0))"

definition space3 :: "char \<Rightarrow> char \<Rightarrow> char \<Rightarrow> bool" where
  "space3 a b c =
     ((a = CHR 0xE1 \<and> b = CHR 0x9A \<and> c = CHR 0x80)
      \<or> (a = CHR 0xE2 \<and> b = CHR 0x80 \<and>
          c \<in> set [CHR 0x80, CHR 0x81, CHR 0x82, CHR 0x83, CHR 0x84, CHR 0x85, CHR 0x86,
                   CHR 0x87, CHR 0x88, CHR 0x89, CHR 0x8A, CHR 0xA8, CHR 0xA9, CHR 0xAF])
      \<or> (a = CHR 0xE2 \<and> b = CHR 0x81 \<and> c = CHR 0x9F)
      \<or> (a = CHR 0xE3 \<and> b = CHR 0x80 \<and> c = CHR 0x80))"

fun TrimLeft :: "string \<Rightarrow> string" where
  "TrimLeft (a # b # c # s) =
     (if asciiSpace a then TrimLeft (b # c # s)
      else if space2 a b then TrimLeft (c # s)
      else if space3 a b c then TrimLeft s
      else a # b # c # s)"
| "TrimLeft [a, b] =
     (if asciiSpace a then TrimLeft [b]
      else if space2 a b then []
      else [a, b])"
| "TrimLeft [a] = (if asciiSpace a then [] else [a])"
| "TrimLeft [] = []"

text \<open>The same from the right end, on the reversed string (so the bytes of an encoding
  arrive last byte first).\<close>

fun TrimRightRev :: "string \<Rightarrow> string" where
  "TrimRightRev (c # b # a # s) =
     (if asciiSpace c then TrimRightRev (b # a # s)
      else if space2 b c then TrimRightRev (a # s)
      else if space3 a b c then TrimRightRev s
      else c # b # a # s)"
| "TrimRightRev [c, b] =
     (if asciiSpace c then TrimRightRev [b]
      else if space2 b c then []
      else [c, b])"
| "TrimRightRev [c] = (if asciiSpace c then [] else [c])"
| "TrimRightRev [] = []"

definition TrimSpace :: "string \<Rightarrow> string" where
  "TrimSpace s = rev (TrimRightRev (rev (TrimLeft s)))"

subsection \<open>\<^verbatim>\<open>strings.ToLower\<close>\<close>

text \<open>
  A string is a sequence of bytes, and a rune is a code point, here a natural number.
  \<^verbatim>\<open>utf8.DecodeRuneInString\<close> gives the first rune of a string and the number of bytes
  it takes; a byte that starts no well-formed encoding (too short, too long for its
  value, a surrogate, past U+10FFFF, cut off) gives \<^verbatim>\<open>utf8.RuneError\<close> and the width 1.
\<close>

definition RuneError :: nat where
  "RuneError = 0xFFFD"

fun DecodeRuneInString :: "string \<Rightarrow> nat \<times> nat" where
  "DecodeRuneInString [] = (RuneError, 0)"
| "DecodeRuneInString (c # cs) =
     (let s0 = of_char c :: nat;
          s = map of_char (take 3 cs) :: nat list;
          sz = (if s0 < 0xE0 then 2 else if s0 < 0xF0 then 3 else 4) :: nat;
          lo = (if s0 = 0xE0 then 0xA0 else if s0 = 0xF0 then 0x90 else 0x80) :: nat;
          hi = (if s0 = 0xED then 0x9F else if s0 = 0xF4 then 0x8F else 0xBF) :: nat
      in if s0 < 0x80 then (s0, 1)
         else if s0 < 0xC2 \<or> 0xF4 < s0 then (RuneError, 1)
         else if length s + 1 < sz then (RuneError, 1)
         else if s ! 0 < lo \<or> hi < s ! 0 then (RuneError, 1)
         else if sz = 2 then (s0 mod 32 * 64 + s ! 0 mod 64, 2)
         else if s ! 1 < 0x80 \<or> 0xBF < s ! 1 then (RuneError, 1)
         else if sz = 3 then (s0 mod 16 * 4096 + s ! 0 mod 64 * 64 + s ! 1 mod 64, 3)
         else if s ! 2 < 0x80 \<or> 0xBF < s ! 2 then (RuneError, 1)
         else (s0 mod 8 * 262144 + s ! 0 mod 64 * 4096 + s ! 1 mod 64 * 64 + s ! 2 mod 64, 4))"

lemma DecodeRuneInString_width:
  "s \<noteq> [] \<Longrightarrow> DecodeRuneInString s = (r, w) \<Longrightarrow> 0 < w"
  by (cases s) (auto simp: Let_def split: if_splits)

text \<open>The runes of a string, as \<^verbatim>\<open>for _, c := range s\<close> goes through them.\<close>

function runes :: "string \<Rightarrow> nat list" where
  "runes s =
     (if s = [] then []
      else (case DecodeRuneInString s of (r, w) \<Rightarrow> r # runes (drop w s)))"
  by pat_completeness auto
termination
proof (relation "measure length")
  show "wf (measure (length :: string \<Rightarrow> nat))" by simp
next
  fix s :: string and r w :: nat
  assume "s \<noteq> []" and "(r, w) = DecodeRuneInString s"
  then have "0 < w" using DecodeRuneInString_width [of s r w] by simp
  with \<open>s \<noteq> []\<close> show "(drop w s, s) \<in> measure length" by simp
qed

declare runes.simps [simp del]

text \<open>\<^verbatim>\<open>utf8.AppendRune\<close>: the encoding of a rune; what is no code point is written as
  \<^verbatim>\<open>utf8.RuneError\<close>.\<close>

definition EncodeRune :: "nat \<Rightarrow> string" where
  "EncodeRune r =
     (if r \<le> 0x7F then [char_of r]
      else if r \<le> 0x7FF then [char_of (0xC0 + r div 64), char_of (0x80 + r mod 64)]
      else if 0x10FFFF < r \<or> (0xD800 \<le> r \<and> r \<le> 0xDFFF) then [CHR 0xEF, CHR 0xBF, CHR 0xBD]
      else if r \<le> 0xFFFF
      then [char_of (0xE0 + r div 4096), char_of (0x80 + r div 64 mod 64),
            char_of (0x80 + r mod 64)]
      else [char_of (0xF0 + r div 262144), char_of (0x80 + r div 4096 mod 64),
            char_of (0x80 + r div 64 mod 64), char_of (0x80 + r mod 64)])"

text \<open>
  \<^verbatim>\<open>unicode.ToLower\<close> on a rune past ASCII looks the rune up in \<^verbatim>\<open>unicode.CaseRanges\<close>.
  The table below holds the lower-case mappings of the Unicode character database,
  version 14 (a Go release carries the table of the Unicode version of its time): an
  entry \<open>(lo, hi, step, d)\<close> maps the runes \<open>lo, lo + step, ...\<close> up to \<open>hi\<close> to
  themselves plus \<open>d\<close>, and a rune in no entry is mapped to itself.
\<close>

definition caseRanges :: "(nat \<times> nat \<times> nat \<times> int) list" where
  "caseRanges =
    [(0x00C0, 0x00D6, 1, 32), (0x00D8, 0x00DE, 1, 32), (0x0100, 0x012E, 2, 1),
     (0x0130, 0x0130, 1, - 199), (0x0132, 0x0136, 2, 1), (0x0139, 0x0147, 2, 1),
     (0x014A, 0x0176, 2, 1), (0x0178, 0x0178, 1, - 121), (0x0179, 0x017D, 2, 1),
     (0x0181, 0x0181, 1, 210), (0x0182, 0x0184, 2, 1), (0x0186, 0x0186, 1, 206),
     (0x0187, 0x0187, 1, 1), (0x0189, 0x018A, 1, 205), (0x018B, 0x018B, 1, 1),
     (0x018E, 0x018E, 1, 79), (0x018F, 0x018F, 1, 202), (0x0190, 0x0190, 1, 203),
     (0x0191, 0x0191, 1, 1), (0x0193, 0x0193, 1, 205), (0x0194, 0x0194, 1, 207),
     (0x0196, 0x0196, 1, 211), (0x0197, 0x0197, 1, 209), (0x0198, 0x0198, 1, 1),
     (0x019C, 0x019C, 1, 211), (0x019D, 0x019D, 1, 213), (0x019F, 0x019F, 1, 214),
     (0x01A0, 0x01A4, 2, 1), (0x01A6, 0x01A6, 1, 218), (0x01A7, 0x01A7, 1, 1),
     (0x01A9, 0x01A9, 1, 218), (0x01AC, 0x01AC, 1, 1), (0x01AE, 0x01AE, 1, 218),
     (0x01AF, 0x01AF, 1, 1), (0x01B1, 0x01B2, 1, 217), (0x01B3, 0x01B5, 2, 1),
     (0x01B7, 0x01B7, 1, 219), (0x01B8, 0x01B8, 1, 1), (0x01BC, 0x01BC, 1, 1),
     (0x01C4, 0x01C4, 1, 2), (0x01C5, 0x01C5, 1, 1), (0x01C7, 0x01C7, 1, 2),
     (0x01C8, 0x01C8, 1, 1), (0x01CA, 0x01CA, 1, 2), (0x01CB, 0x01DB, 2, 1),
     (0x01DE, 0x01EE, 2, 1), (0x01F1, 0x01F1, 1, 2), (0x01F2, 0x01F4, 2, 1),
     (0x01F6, 0x01F6, 1, - 97), (0x01F7, 0x01F7, 1, - 56), (0x01F8, 0x021E, 2, 1),
     (0x0220, 0x0220, 1, - 130), (0x0222, 0x0232, 2, 1), (0x023A, 0x023A, 1, 10795),
     (0x023B, 0x023B, 1, 1), (0x023D, 0x023D, 1, - 163), (0x023E, 0x023E, 1, 10792),
     (0x0241, 0x0241, 1, 1), (0x0243, 0x0243, 1, - 195), (0x0244, 0x0244, 1, 69),
     (0x0245, 0x0245, 1, 71), (0x0246, 0x024E, 2, 1), (0x0370, 0x0372, 2, 1),
     (0x0376, 0x0376, 1, 1), (0x037F, 0x037F, 1, 116), (0x0386, 0x0386, 1, 38),
     (0x0388, 0x038A, 1, 37), (0x038C, 0x038C, 1, 64), (0x038E, 0x038F, 1, 63),
     (0x0391, 0x03A1, 1, 32), (0x03A3, 0x03AB, 1, 32), (0x03CF, 0x03CF, 1, 8),
     (0x03D8, 0x03EE, 2, 1), (0x03F4, 0x03F4, 1, - 60), (0x03F7, 0x03F7, 1, 1),
     (0x03F9, 0x03F9, 1, - 7), (0x03FA, 0x03FA, 1, 1), (0x03FD, 0x03FF, 1, - 130),
     (0x0400, 0x040F, 1, 80), (0x0410, 0x042F, 1, 32), (0x0460, 0x0480, 2, 1),
     (0x048A, 0x04BE, 2, 1), (0x04C0, 0x04C0, 1, 15), (0x04C1, 0x04CD, 2, 1),
     (0x04D0, 0x052E, 2, 1), (0x0531, 0x0556, 1, 48), (0x10A0, 0x10C5, 1, 7264),
     (0x10C7, 0x10C7, 1, 7264), (0x10CD, 0x10CD, 1, 7264), (0x13A0, 0x13EF, 1, 38864),
     (0x13F0, 0x13F5, 1, 8), (0x1C90, 0x1CBA, 1, - 3008), (0x1CBD, 0x1CBF, 1, - 3008),
     (0x1E00, 0x1E94, 2, 1), (0x1E9E, 0x1E9E, 1, - 7615), (0x1EA0, 0x1EFE, 2, 1),
     (0x1F08, 0x1F0F, 1, - 8), (0x1F18, 0x1F1D, 1, - 8), (0x1F28, 0x1F2F, 1, - 8),
     (0x1F38, 0x1F3F, 1, - 8), (0x1F48, 0x1F4D, 1, - 8), (0x1F59, 0x1F5F, 2, - 8),
     (0x1F68, 0x1F6F, 1, - 8), (0x1F88, 0x1F8F, 1, - 8), (0x1F98, 0x1F9F, 1, - 8),
     (0x1FA8, 0x1FAF, 1, - 8), (0x1FB8, 0x1FB9, 1, - 8), (0x1FBA, 0x1FBB, 1, - 74),
     (0x1FBC, 0x1FBC, 1, - 9), (0x1FC8, 0x1FCB, 1, - 86), (0x1FCC, 0x1FCC, 1, - 9),
     (0x1FD8, 0x1FD9, 1, - 8), (0x1FDA, 0x1FDB, 1, - 100), (0x1FE8, 0x1FE9, 1, - 8),
     (0x1FEA, 0x1FEB, 1, - 112), (0x1FEC, 0x1FEC, 1, - 7), (0x1FF8, 0x1FF9, 1, - 128),
     (0x1FFA, 0x1FFB, 1, - 126), (0x1FFC, 0x1FFC, 1, - 9), (0x2126, 0x2126, 1, - 7517),
     (0x212A, 0x212A, 1, - 8383), (0x212B, 0x212B, 1, - 8262), (0x2132, 0x2132, 1, 28),
     (0x2160, 0x216F, 1, 16), (0x2183, 0x2183, 1, 1), (0x24B6, 0x24CF, 1, 26),
     (0x2C00, 0x2C2F, 1, 48), (0x2C60, 0x2C60, 1, 1), (0x2C62, 0x2C62, 1, - 10743),
     (0x2C63, 0x2C63, 1, - 3814), (0x2C64, 0x2C64, 1, - 10727), (0x2C67, 0x2C6B, 2, 1),
     (0x2C6D, 0x2C6D, 1, - 10780), (0x2C6E, 0x2C6E, 1, - 10749),
     (0x2C6F, 0x2C6F, 1, - 10783), (0x2C70, 0x2C70, 1, - 10782), (0x2C72, 0x2C72, 1, 1),
     (0x2C75, 0x2C75, 1, 1), (0x2C7E, 0x2C7F, 1, - 10815), (0x2C80, 0x2CE2, 2, 1),
     (0x2CEB, 0x2CED, 2, 1), (0x2CF2, 0x2CF2, 1, 1), (0xA640, 0xA66C, 2, 1),
     (0xA680, 0xA69A, 2, 1), (0xA722, 0xA72E, 2, 1), (0xA732, 0xA76E, 2, 1),
     (0xA779, 0xA77B, 2, 1), (0xA77D, 0xA77D, 1, - 35332), (0xA77E, 0xA786, 2, 1),
     (0xA78B, 0xA78B, 1, 1), (0xA78D, 0xA78D, 1, - 42280), (0xA790, 0xA792, 2, 1),
     (0xA796, 0xA7A8, 2, 1), (0xA7AA, 0xA7AA, 1, - 42308), (0xA7AB, 0xA7AB, 1, - 42319),
     (0xA7AC, 0xA7AC, 1, - 42315), (0xA7AD, 0xA7AD, 1, - 42305),
     (0xA7AE, 0xA7AE, 1, - 42308), (0xA7B0, 0xA7B0, 1, - 42258),
     (0xA7B1, 0xA7B1, 1, - 42282), (0xA7B2, 0xA7B2, 1, - 42261), (0xA7B3, 0xA7B3, 1, 928),
     (0xA7B4, 0xA7C2, 2, 1), (0xA7C4, 0xA7C4, 1, - 48), (0xA7C5, 0xA7C5, 1, - 42307),
     (0xA7C6, 0xA7C6, 1, - 35384), (0xA7C7, 0xA7C9, 2, 1), (0xA7D0, 0xA7D0, 1, 1),
     (0xA7D6, 0xA7D8, 2, 1), (0xA7F5, 0xA7F5, 1, 1), (0xFF21, 0xFF3A, 1, 32),
     (0x10400, 0x10427, 1, 40), (0x104B0, 0x104D3, 1, 40), (0x10570, 0x1057A, 1, 39),
     (0x1057C, 0x1058A, 1, 39), (0x1058C, 0x10592, 1, 39), (0x10594, 0x10595, 1, 39),
     (0x10C80, 0x10CB2, 1, 64), (0x118A0, 0x118BF, 1, 32), (0x16E40, 0x16E5F, 1, 32),
     (0x1E900, 0x1E921, 1, 34)]"

definition inRange :: "nat \<Rightarrow> nat \<times> nat \<times> nat \<times> int \<Rightarrow> bool" where
  "inRange r e = (case e of (lo, hi, step, d) \<Rightarrow> lo \<le> r \<and> r \<le> hi \<and> (r - lo) mod step = 0)"

definition ToLowerRune :: "nat \<Rightarrow> nat" where
  "ToLowerRune r =
     (if r \<le> 0x7F then (if 0x41 \<le> r \<and> r \<le> 0x5A then r + 32 else r)
      else (case find (inRange r) caseRanges of
              Some (lo, hi, step, d) \<Rightarrow> nat (int r + d)
            | None \<Rightarrow> r))"

text \<open>
  \<^verbatim>\<open>strings.ToLower\<close>. On a string of ASCII bytes it maps \<open>A..Z\<close> to \<open>a..z\<close> and keeps
  every other byte. On any other string it is \<^verbatim>\<open>strings.Map(unicode.ToLower, s)\<close>:
  every rune of the string is mapped and encoded again, so that a byte that is part
  of no well-formed encoding comes out as the three bytes of U+FFFD.
\<close>

definition isASCII :: "char \<Rightarrow> bool" where
  "isASCII c = (\<not> digit7 c)"

definition lowerByte :: "char \<Rightarrow> char" where
  "lowerByte c =
     (case map_of (zip ''ABCDEFGHIJKLMNOPQRSTUVWXYZ'' ''abcdefghijklmnopqrstuvwxyz'') c of
        Some l \<Rightarrow> l
      | None \<Rightarrow> c)"

definition MapToLower :: "string \<Rightarrow> string" where
  "MapToLower s = concat (map (\<lambda>r. EncodeRune (ToLowerRune r)) (runes s))"

definition ToLower :: "string \<Rightarrow> string" where
  "ToLower s = (if list_all isASCII s then map lowerByte s else MapToLower s)"

subsection \<open>\<^verbatim>\<open>strconv.Atoi\<close>\<close>

text \<open>
  \<^verbatim>\<open>Atoi\<close> reads an optional sign and then decimal digits into a 64-bit \<^verbatim>\<open>int\<close>:
  an empty string, a sign alone or a byte that is no digit is \<^verbatim>\<open>ErrSyntax\<close>, a value
  outside \<open>-2^63 .. 2^63 - 1\<close> is \<^verbatim>\<open>ErrRange\<close>. The digits are read from the left and
  the first fault met decides the error; \<open>18446744073709551616\<close> is \<open>2^64\<close> and
  \<open>9223372036854775808\<close> is \<open>2^63\<close>.
\<close>

definition isDigit :: "char \<Rightarrow> bool" where
  "isDigit c = (c \<in> set ''0123456789'')"

text \<open>The value of a digit is its place in \<open>0123456789\<close>.\<close>

definition digitVal :: "char \<Rightarrow> int" where
  "digitVal c = int (length (takeWhile (\<lambda>d. d \<noteq> c) ''0123456789''))"

fun parseDigits :: "int \<Rightarrow> string \<Rightarrow> error + int" where
  "parseDigits n [] = Inr n"
| "parseDigits n (c # cs) =
     (if \<not> isDigit c then Inl ErrSyntax
      else if n * 10 + digitVal c \<ge> 18446744073709551616 then Inl ErrRange
      else parseDigits (n * 10 + digitVal c) cs)"

definition Atoi :: "string \<Rightarrow> error + int" where
  "Atoi s =
     (let neg = (s \<noteq> [] \<and> hd s = CHR ''-'');
          ds = (if s \<noteq> [] \<and> (hd s = CHR ''-'' \<or> hd s = CHR ''+'') then tl s else s)
      in if ds = [] then Inl ErrSyntax
         else (case parseDigits 0 ds of
                 Inl e \<Rightarrow> Inl e
               | Inr n \<Rightarrow>
                   if \<not> neg \<and> n \<ge> 9223372036854775808 then Inl ErrRange
                   else if neg \<and> n > 9223372036854775808 then Inl ErrRange
                   else Inr (if neg then - n else n)))"

section \<open>The transport and \<^verbatim>\<open>bufio.Reader\<close>\<close>

text \<open>
  The transport under the buffered reader is an \<^verbatim>\<open>io.Reader\<close>. Its future is a list
  of deliveries: the bytes that one \<^verbatim>\<open>Read\<close> call gets when its buffer is large
  enough, and the error returned with them, if any. A connection that receives the
  fragments \<open>fs\<close> and is then closed by the peer is \<open>conn fs\<close>. When the list is
  used up, \<^verbatim>\<open>Read\<close> returns \<^verbatim>\<open>io.EOF\<close>. A \<^verbatim>\<open>Read\<close> with room for \<open>k\<close> bytes takes at
  most \<open>k\<close> bytes of the first delivery and leaves the rest (with its error) for the
  next call. A delivery with no bytes and no error is not a return of \<^verbatim>\<open>Read\<close> at
  all (a network connection blocks until it has bytes or fails), so it is skipped.
\<close>

type_synonym delivery = "string \<times> error option"

type_synonym source = "delivery list"

definition conn :: "string list \<Rightarrow> source" where
  "conn fs = map (\<lambda>d. (d, None)) fs"

fun srcRead :: "source \<Rightarrow> nat \<Rightarrow> (string \<times> error option) \<times> source" where
  "srcRead [] k = (([], Some EOF), [])"
| "srcRead ((d, e) # rest) k =
     (if d = [] \<and> e = None then srcRead rest k
      else if length d \<le> k then ((d, e), rest)
      else ((take k d, None), (drop k d, e) # rest))"

text \<open>
  \<^verbatim>\<open>bufio.Reader\<close>: the bytes read from the transport and not yet handed out
  (\<^verbatim>\<open>buf[r:w]\<close>), the error of the last transport read that is still to be reported
  (\<^verbatim>\<open>err\<close>), and the transport (\<^verbatim>\<open>rd\<close>). \<^verbatim>\<open>bufio.NewReader\<close> gives the buffer 4096 bytes.
\<close>

record Reader =
  buffered :: string
  err :: "error option"
  rd :: source

definition bufSize :: nat where
  "bufSize = 4096"

definition NewReader :: "source \<Rightarrow> Reader" where
  "NewReader s = \<lparr>buffered = [], err = None, rd = s\<rparr>"

text \<open>\<^verbatim>\<open>fill\<close> reads once from the transport into the free part of the buffer.\<close>

definition fill :: "Reader \<Rightarrow> Reader" where
  "fill b =
     (case srcRead (rd b) (bufSize - length (buffered b)) of
        ((d, e), s) \<Rightarrow>
          \<lparr>buffered = buffered b @ d,
           err = (case e of None \<Rightarrow> err b | Some x \<Rightarrow> Some x),
           rd = s\<rparr>)"

text \<open>The size of what the transport still holds: the measure of the reading loops.\<close>

fun srcSize :: "source \<Rightarrow> nat" where
  "srcSize [] = 0"
| "srcSize ((d, e) # rest) = Suc (length d) + srcSize rest"

definition readerSize :: "Reader \<Rightarrow> nat" where
  "readerSize b = srcSize (rd b) + (if err b = None then 1 else 0)"

lemma srcRead_smaller:
  "0 < k \<Longrightarrow> srcRead s k = ((d, e), s') \<Longrightarrow>
   srcSize s' + (if e = None then 1 else 0) < srcSize s + 1"
  by (induction s k arbitrary: d e s' rule: srcRead.induct)
     (auto split: if_splits)

lemma fill_smaller:
  "err b = None \<Longrightarrow> length (buffered b) < bufSize \<Longrightarrow> readerSize (fill b) < readerSize b"
proof -
  assume e: "err b = None" and l: "length (buffered b) < bufSize"
  obtain d x s where r: "srcRead (rd b) (bufSize - length (buffered b)) = ((d, x), s)"
    by (metis surj_pair)
  from l have "0 < bufSize - length (buffered b)" by simp
  from srcRead_smaller [OF this r] show ?thesis
    using e r by (cases x) (simp_all add: fill_def readerSize_def)
qed

text \<open>
  \<^verbatim>\<open>ReadString(delim)\<close> (through \<^verbatim>\<open>ReadBytes\<close>, \<^verbatim>\<open>collectFragments\<close> and \<^verbatim>\<open>ReadSlice\<close>):
  look for the delimiter in the buffer; if it is there, hand out the bytes up to and
  including it; if not and an error is pending, hand out the whole buffer with the
  error; if not and the buffer is full, set the full buffer aside (\<open>acc\<close>) and go on
  with an empty one; else fill and look again.
\<close>

function collectFragments :: "char \<Rightarrow> Reader \<Rightarrow> string \<Rightarrow> (string \<times> error option) \<times> Reader" where
  "collectFragments delim b acc =
     (if delim \<in> set (buffered b)
      then ((acc @ takeWhile (\<lambda>c. c \<noteq> delim) (buffered b) @ [delim], None),
            b\<lparr>buffered := tl (dropWhile (\<lambda>c. c \<noteq> delim) (buffered b))\<rparr>)
      else if err b \<noteq> None
      then ((acc @ buffered b, err b), b\<lparr>buffered := [], err := None\<rparr>)
      else if length (buffered b) \<ge> bufSize
      then collectFragments delim (b\<lparr>buffered := []\<rparr>) (acc @ buffered b)
      else collectFragments delim (fill b) acc)"
  by pat_completeness auto
termination
proof (relation "measures [\<lambda>(delim, b, acc). readerSize b, \<lambda>(delim, b, acc). length (buffered b)]")
  show "wf (measures [\<lambda>(delim, b, acc). readerSize b, \<lambda>(delim, b, acc). length (buffered b)])"
    by simp
next
  fix delim :: char and b :: Reader and acc :: string
  assume "\<not> err b \<noteq> None" and "bufSize \<le> length (buffered b)"
  then show "((delim, b\<lparr>buffered := []\<rparr>, acc @ buffered b), (delim, b, acc))
      \<in> measures [\<lambda>(delim, b, acc). readerSize b, \<lambda>(delim, b, acc). length (buffered b)]"
    by (auto simp: readerSize_def bufSize_def)
next
  fix delim :: char and b :: Reader and acc :: string
  assume "\<not> err b \<noteq> None" and "\<not> bufSize \<le> length (buffered b)"
  then show "((delim, fill b, acc), (delim, b, acc))
      \<in> measures [\<lambda>(delim, b, acc). readerSize b, \<lambda>(delim, b, acc). length (buffered b)]"
    using fill_smaller [of b] by simp
qed

definition ReadString :: "Reader \<Rightarrow> char \<Rightarrow> (string \<times> error option) \<times> Reader" where
  "ReadString b delim = collectFragments delim b []"

text \<open>
  \<^verbatim>\<open>Read(p)\<close> with \<open>n = len(p)\<close>: from the buffer if it holds bytes; from the
  transport straight into \<open>p\<close> if the buffer is empty and \<open>p\<close> is at least as large
  as the buffer (then bytes and an error can come back together); else one transport
  read into the buffer, and from there.
\<close>

definition bufioRead :: "Reader \<Rightarrow> nat \<Rightarrow> (string \<times> error option) \<times> Reader" where
  "bufioRead b n =
     (if n = 0
      then (if buffered b \<noteq> [] then (([], None), b) else (([], err b), b\<lparr>err := None\<rparr>))
      else if buffered b = []
      then (case err b of
              Some e \<Rightarrow> (([], Some e), b\<lparr>err := None\<rparr>)
            | None \<Rightarrow>
                if n \<ge> bufSize
                then (case srcRead (rd b) n of
                        ((d, e), s) \<Rightarrow> ((d, e), \<lparr>buffered = [], err = None, rd = s\<rparr>))
                else (case srcRead (rd b) bufSize of
                        ((d, e), s) \<Rightarrow>
                          if d = [] then (([], e), \<lparr>buffered = [], err = None, rd = s\<rparr>)
                          else ((take n d, None), \<lparr>buffered = drop n d, err = e, rd = s\<rparr>)))
      else ((take n (buffered b), None), b\<lparr>buffered := drop n (buffered b)\<rparr>))"

declare collectFragments.simps [simp del]

lemma collectFragments_line_nonempty:
  "collectFragments delim b acc = ((bytes, None), b') \<Longrightarrow> bytes \<noteq> []"
proof (induction delim b acc rule: collectFragments.induct)
  case (1 delim b acc)
  then show ?case
    by (subst (asm) (3) collectFragments.simps) (auto split: if_splits)
qed

lemma ReadString_line_nonempty:
  "ReadString b delim = ((bytes, None), b') \<Longrightarrow> bytes \<noteq> []"
  unfolding ReadString_def by (rule collectFragments_line_nonempty)

section \<open>The program\<close>

subsection \<open>The data\<close>

record Header =
  Name :: string
  Value :: string

text \<open>
  \<^verbatim>\<open>LimitedBodyReader\<close> holds a pointer to the connection's buffered reader and the
  count of body bytes still to read. The record carries the state of the reader it
  points to; nothing else uses that reader once the parser has returned.
\<close>

record LimitedBodyReader =
  buf :: Reader
  remaining :: int

text \<open>\<^verbatim>\<open>Body\<close> is an \<^verbatim>\<open>io.Reader\<close> interface value: \<^verbatim>\<open>nil\<close> or a \<^verbatim>\<open>*LimitedBodyReader\<close>.\<close>

record HTTPReq =
  Method :: string
  URI :: string
  Version :: string
  Headers :: "Header list"
  Body :: "LimitedBodyReader option"

subsection \<open>\<^verbatim>\<open>LimitedBodyReader.Read\<close>\<close>

text \<open>
  \<open>Read r n\<close> is \<^verbatim>\<open>r.Read(p)\<close> with \<open>n = len(p)\<close>. \<open>Returned d\<close> stands for the return
  \<open>(len d, nil)\<close> with \<open>d\<close> written to \<open>p\<close>, \<open>Failed e\<close> for the return \<open>(0, e)\<close>. With a
  negative \<^verbatim>\<open>remaining\<close> the bound \<^verbatim>\<open>bytesIWant\<close> is negative and the slice expression
  \<^verbatim>\<open>p[:bytesIWant]\<close> panics.
\<close>

definition Read :: "LimitedBodyReader \<Rightarrow> nat \<Rightarrow> string result \<times> LimitedBodyReader" where
  "Read r n =
     (if remaining r = 0 then (Failed EOF, r)
      else
        (let bytesIWant = min (int n) (remaining r)
         in if bytesIWant < 0 then (Panicked SliceBoundsOutOfRange, r)
            else (case bufioRead (buf r) (nat bytesIWant) of
                    ((d, Some e), b) \<Rightarrow> (Failed (AnErrorOccurred e), r\<lparr>buf := b\<rparr>)
                  | ((d, None), b) \<Rightarrow>
                      (Returned d, \<lparr>buf = b, remaining = remaining r - int (length d)\<rparr>))))"

subsection \<open>\<^verbatim>\<open>parseHTTPRequest\<close>\<close>

text \<open>The local variables of \<^verbatim>\<open>parseHTTPRequest\<close> that live across iterations of its loop.\<close>

record locals =
  httpReq :: HTTPReq
  headerArr :: "Header list"
  headerBytes :: nat
  contentLength :: int
  isHeaderComplete :: bool
  count :: nat

definition emptyReq :: HTTPReq where
  "emptyReq = \<lparr>Method = [], URI = [], Version = [], Headers = [], Body = None\<rparr>"

definition initLocals :: locals where
  "initLocals =
     \<lparr>httpReq = emptyReq, headerArr = [], headerBytes = 0, contentLength = 0,
      isHeaderComplete = False, count = 0\<rparr>"

text \<open>
  The request line: \<^verbatim>\<open>lineData := strings.Split(line, " ")\<close>, then \<^verbatim>\<open>lineData[0]\<close>,
  \<^verbatim>\<open>lineData[1]\<close>, \<^verbatim>\<open>lineData[2]\<close>, each trimmed. An index past the end of the slice
  panics; pieces after the third are not looked at.
\<close>

definition requestLine :: "string \<Rightarrow> HTTPReq \<Rightarrow> HTTPReq result" where
  "requestLine line req =
     (let lineData = Split line CHR '' ''
      in if length lineData < 3 then Panicked IndexOutOfRange
         else Returned (req\<lparr>Method := TrimSpace (lineData ! 0),
                            URI := TrimSpace (lineData ! 1),
                            Version := TrimSpace (lineData ! 2)\<rparr>))"

text \<open>
  A header line: \<^verbatim>\<open>lineData := strings.SplitN(line, ":", 2)\<close>, the name is
  \<^verbatim>\<open>lineData[0]\<close> trimmed and lowered, the value \<^verbatim>\<open>lineData[1]\<close> trimmed; a line with
  no colon has no \<^verbatim>\<open>lineData[1]\<close>.
\<close>

definition headerLine :: "string \<Rightarrow> Header result" where
  "headerLine line =
     (let lineData = SplitN2 line CHR '':''
      in if length lineData < 2 then Panicked IndexOutOfRange
         else Returned \<lparr>Name = ToLower (TrimSpace (lineData ! 0)),
                         Value = TrimSpace (lineData ! 1)\<rparr>)"

text \<open>
  The loop over \<^verbatim>\<open>headerArr\<close> that looks for \<^verbatim>\<open>content-length\<close>: every header of that
  name is converted with \<^verbatim>\<open>Atoi\<close>, a later one overwrites an earlier one, the first
  that does not convert ends the parse with an error.
\<close>

fun scanContentLength :: "Header list \<Rightarrow> int \<Rightarrow> error + int" where
  "scanContentLength [] cl = Inr cl"
| "scanContentLength (h # hs) cl =
     (if Name h = ''content-length''
      then (case Atoi (Value h) of
              Inl e \<Rightarrow> Inl (AnErrorOccurred e)
            | Inr v \<Rightarrow> scanContentLength hs v)
      else scanContentLength hs cl)"

text \<open>
  The branch of the loop body that runs once \<^verbatim>\<open>isHeaderComplete\<close> is set. The body
  reader gets the very reader the parser read from.
\<close>

definition afterHeader :: "locals \<Rightarrow> Reader \<Rightarrow> HTTPReq result" where
  "afterHeader v b =
     (let req = (httpReq v)\<lparr>Headers := headerArr v\<rparr>
      in if Method req = ''GET'' \<or> Method req = ''HEAD'' then Returned req
         else (case scanContentLength (headerArr v) (contentLength v) of
                 Inl e \<Rightarrow> Failed e
               | Inr cl \<Rightarrow> Returned (req\<lparr>Body := Some \<lparr>buf = b, remaining = cl\<rparr>\<rparr>)))"

text \<open>
  One iteration of the loop of \<^verbatim>\<open>parseHTTPRequest\<close>, from the return of
  \<^verbatim>\<open>reader.ReadString('\n')\<close> on: \<open>(bytes, e)\<close> is what \<^verbatim>\<open>ReadString\<close> returned and
  \<open>b\<close> the state it left the reader in. The iteration ends the function (a
  \<^verbatim>\<open>return\<close>, the \<^verbatim>\<open>break\<close> that leads to the final \<^verbatim>\<open>return\<close>, or a panic) or goes
  round the loop with new values of the local variables.
\<close>

datatype step = Continue locals | Done "HTTPReq result"

definition iteration :: "locals \<Rightarrow> string \<times> error option \<Rightarrow> Reader \<Rightarrow> step" where
  "iteration v r b =
     (case r of
        (bytes, Some e) \<Rightarrow> Done (Failed (SomethingWentWrong e))
      | (bytes, None) \<Rightarrow>
          if \<not> isHeaderComplete v then
            (if headerBytes v + length bytes > 8192 then Done (Failed BufferIsTooLarge)
             else if bytes = CRLF
             then Continue (v\<lparr>headerBytes := headerBytes v + length bytes,
                              isHeaderComplete := True\<rparr>)
             else if count v = 0
             then (case requestLine bytes (httpReq v) of
                     Returned req \<Rightarrow>
                       Continue (v\<lparr>httpReq := req,
                                   headerBytes := headerBytes v + length bytes,
                                   count := count v + 1\<rparr>)
                   | Failed x \<Rightarrow> Done (Failed x)
                   | Panicked p \<Rightarrow> Done (Panicked p))
             else (case headerLine bytes of
                     Returned h \<Rightarrow>
                       Continue (v\<lparr>headerArr := headerArr v @ [h],
                                   headerBytes := headerBytes v + length bytes,
                                   count := count v + 1\<rparr>)
                   | Failed x \<Rightarrow> Done (Failed x)
                   | Panicked p \<Rightarrow> Done (Panicked p)))
          else Done (afterHeader v b))"

lemma iteration_Continue:
  "iteration v (bytes, e) b = Continue v' \<Longrightarrow>
   e = None \<and> \<not> isHeaderComplete v \<and> headerBytes v' = headerBytes v + length bytes
   \<and> headerBytes v' \<le> 8192"
  by (auto simp: iteration_def split: option.splits if_splits result.splits)

text \<open>
  The loop. Every iteration starts with \<^verbatim>\<open>reader.ReadString('\n')\<close>, also the one
  that follows the \<^verbatim>\<open>continue\<close> taken at the empty line. The second component of the
  result is the state the buffered reader is left in.
\<close>

function parseLoop :: "locals \<Rightarrow> Reader \<Rightarrow> HTTPReq result \<times> Reader" where
  "parseLoop v b =
     (case ReadString b LF of
        (r, b') \<Rightarrow>
          (case iteration v r b' of
             Continue v' \<Rightarrow> parseLoop v' b'
           | Done res \<Rightarrow> (res, b')))"
  by pat_completeness auto
termination
proof (relation "measure (\<lambda>(v, b). if isHeaderComplete v then 0 else 8194 - headerBytes v)")
  show "wf (measure (\<lambda>(v, b). if isHeaderComplete v then 0 else 8194 - headerBytes v))"
    by simp
next
  fix v :: locals and b :: Reader and r :: "string \<times> error option"
    and b' :: Reader and v' :: locals
  assume r: "(r, b') = ReadString b LF" and it: "iteration v r b' = Continue v'"
  obtain bytes e where re: "r = (bytes, e)" by (cases r)
  from iteration_Continue [OF it [unfolded re]]
  have e: "e = None" and nc: "\<not> isHeaderComplete v"
    and hb: "headerBytes v' = headerBytes v + length bytes" and le: "headerBytes v' \<le> 8192"
    by simp_all
  from r re e have "ReadString b LF = ((bytes, None), b')" by simp
  from ReadString_line_nonempty [OF this] have "0 < length bytes" by simp
  with nc hb le
  show "((v', b'), (v, b))
      \<in> measure (\<lambda>(v, b). if isHeaderComplete v then 0 else 8194 - headerBytes v)"
    by (simp del: length_greater_0_conv, arith)
qed

declare parseLoop.simps [simp del]

definition parseHTTPRequest :: "Reader \<Rightarrow> HTTPReq result \<times> Reader" where
  "parseHTTPRequest reader = parseLoop initLocals reader"

text \<open>The count \<open>n\<close> that a \<^verbatim>\<open>Read\<close> call reports to its caller.\<close>

definition nRead :: "string result \<Rightarrow> nat" where
  "nRead res = (case res of Returned d \<Rightarrow> length d | Failed e \<Rightarrow> 0 | Panicked p \<Rightarrow> 0)"

section \<open>The bounded body reader\<close>

lemma srcRead_length: "srcRead s k = ((d, e), s') \<Longrightarrow> length d \<le> k"
  by (induction s k arbitrary: d e s' rule: srcRead.induct) (auto split: if_splits)

lemma bufioRead_length: "bufioRead b n = ((d, e), b') \<Longrightarrow> length d \<le> n"
  by (auto simp: bufioRead_def split: if_splits option.splits prod.splits dest: srcRead_length)




text \<open>
  Claim C10. When the buffered source returns an error to a \<^verbatim>\<open>Read\<close> call of the
  bounded body reader, the call reports zero bytes together with an error that wraps
  the source's, and \<^verbatim>\<open>remaining\<close> is what it was; this is so also when the source
  handed over bytes \<open>d\<close> along with the error. (With \<^verbatim>\<open>remaining > 0\<close>, as the source is
  not called otherwise.)
\<close>

theorem Read_error_path:
  assumes "0 < remaining r"
    and "bufioRead (buf r) (nat (min (int n) (remaining r))) = ((d, Some e), b)"
  shows "Read r n = (Failed (AnErrorOccurred e), r\<lparr>buf := b\<rparr>)
         \<and> nRead (fst (Read r n)) = 0
         \<and> remaining (snd (Read r n)) = remaining r"
  using assms by (simp add: Read_def Let_def nRead_def)

text \<open>The source hands over three bytes with its error; the call reports none.\<close>

theorem Read_error_path_witness:
  "bufioRead (NewReader [(''abc'', Some TransportError)]) 5000
     = ((''abc'', Some TransportError), \<lparr>buffered = [], err = None, rd = []\<rparr>)
   \<and> Read \<lparr>buf = NewReader [(''abc'', Some TransportError)], remaining = 5000\<rparr> 5000
     = (Failed (AnErrorOccurred TransportError),
        \<lparr>buf = \<lparr>buffered = [], err = None, rd = []\<rparr>, remaining = 5000\<rparr>)"
  using Read_error_path [of "\<lparr>buf = NewReader [(''abc'', Some TransportError)], remaining = 5000\<rparr>"
      5000 "''abc''" TransportError "\<lparr>buffered = [], err = None, rd = []\<rparr>"]
  by (simp add: NewReader_def bufioRead_def bufSize_def)

section \<open>What a reader still holds\<close>

text \<open>
  The bytes a transport hands over before its first error, and that error.
\<close>

fun srcData :: "source \<Rightarrow> string" where
  "srcData [] = []"
| "srcData ((d, e) # rest) = (case e of None \<Rightarrow> d @ srcData rest | Some x \<Rightarrow> d)"

fun srcErr :: "source \<Rightarrow> error" where
  "srcErr [] = EOF"
| "srcErr ((d, e) # rest) = (case e of None \<Rightarrow> srcErr rest | Some x \<Rightarrow> x)"

text \<open>
  The bytes the buffered reader will hand out before it reports an error, whatever
  part of them is in its buffer already, and the error it will report then.
\<close>

fun dataAfter :: "error option \<Rightarrow> source \<Rightarrow> string" where
  "dataAfter None s = srcData s"
| "dataAfter (Some x) s = []"

fun errAfter :: "error option \<Rightarrow> source \<Rightarrow> error" where
  "errAfter None s = srcErr s"
| "errAfter (Some x) s = x"

definition pending :: "Reader \<Rightarrow> string" where
  "pending b = buffered b @ dataAfter (err b) (rd b)"

definition pendingErr :: "Reader \<Rightarrow> error" where
  "pendingErr b = errAfter (err b) (rd b)"

lemma srcRead_data:
  "srcRead s k = ((d, e), s') \<Longrightarrow>
   srcData s = d @ (case e of None \<Rightarrow> srcData s' | Some x \<Rightarrow> [])
   \<and> srcErr s = (case e of None \<Rightarrow> srcErr s' | Some x \<Rightarrow> x)"
  by (induction s k arbitrary: d e s' rule: srcRead.induct)
     (auto split: if_splits option.splits)

lemma fill_pending:
  assumes "err b = None"
  shows "pending (fill b) = pending b" and "pendingErr (fill b) = pendingErr b"
proof -
  obtain d e s where r: "srcRead (rd b) (bufSize - length (buffered b)) = ((d, e), s)"
    by (metis surj_pair)
  from srcRead_data [OF r] assms r show "pending (fill b) = pending b"
    by (cases e) (simp_all add: fill_def pending_def)
  from srcRead_data [OF r] assms r show "pendingErr (fill b) = pendingErr b"
    by (cases e) (simp_all add: fill_def pendingErr_def)
qed

section \<open>\<^verbatim>\<open>ReadString\<close> returns the next line of what the reader holds\<close>

lemma takeWhile_notin:
  "x \<notin> set xs \<Longrightarrow> takeWhile (\<lambda>c. c \<noteq> x) (xs @ ys) = xs @ takeWhile (\<lambda>c. c \<noteq> x) ys"
  by (induction xs) auto

lemma dropWhile_notin:
  "x \<notin> set xs \<Longrightarrow> dropWhile (\<lambda>c. c \<noteq> x) (xs @ ys) = dropWhile (\<lambda>c. c \<noteq> x) ys"
  by (induction xs) auto

lemma collectFragments_spec:
  "collectFragments delim b acc = ((line, e), b') \<Longrightarrow>
   (if delim \<in> set (pending b)
    then line = acc @ takeWhile (\<lambda>c. c \<noteq> delim) (pending b) @ [delim] \<and> e = None
         \<and> pending b' = tl (dropWhile (\<lambda>c. c \<noteq> delim) (pending b))
         \<and> pendingErr b' = pendingErr b
    else line = acc @ pending b \<and> e = Some (pendingErr b))"
proof (induction delim b acc arbitrary: line e b' rule: collectFragments.induct)
  case (1 delim b acc)
  note res = "1.prems"
  show ?case
  proof (cases "delim \<in> set (buffered b)")
    case True
    then have in_p: "delim \<in> set (pending b)" by (simp add: pending_def)
    from True have dw: "dropWhile (\<lambda>c. c \<noteq> delim) (buffered b) \<noteq> []"
      by (simp add: dropWhile_eq_Nil_conv) 
    from True res have "line = acc @ takeWhile (\<lambda>c. c \<noteq> delim) (buffered b) @ [delim]"
      and "e = None"
      and b': "b' = b\<lparr>buffered := tl (dropWhile (\<lambda>c. c \<noteq> delim) (buffered b))\<rparr>"
      by (simp_all add: collectFragments.simps [of delim b acc])
    moreover from True have "takeWhile (\<lambda>c. c \<noteq> delim) (pending b)
        = takeWhile (\<lambda>c. c \<noteq> delim) (buffered b)"
      by (simp add: pending_def takeWhile_append1)
    moreover from True dw b' have "pending b' = tl (dropWhile (\<lambda>c. c \<noteq> delim) (pending b))"
      by (simp add: pending_def dropWhile_append1)
    moreover from b' have "pendingErr b' = pendingErr b" by (simp add: pendingErr_def)
    ultimately show ?thesis using in_p by simp
  next
    case nf: False
    show ?thesis
    proof (cases "err b")
      case (Some x)
      with nf res have "line = acc @ buffered b" and "e = Some x"
        by (simp_all add: collectFragments.simps [of delim b acc])
      with nf Some show ?thesis by (simp add: pending_def pendingErr_def)
    next
      case None
      show ?thesis
      proof (cases "bufSize \<le> length (buffered b)")
        case True
        let ?b2 = "b\<lparr>buffered := []\<rparr>"
        from nf None True res
        have r2: "collectFragments delim ?b2 (acc @ buffered b) = ((line, e), b')"
          by (simp add: collectFragments.simps [of delim b acc])
        have p: "pending b = buffered b @ pending ?b2" and pe: "pendingErr ?b2 = pendingErr b"
          by (simp_all add: pending_def pendingErr_def)
        from nf None True have ih: "if delim \<in> set (pending ?b2)
            then line = (acc @ buffered b) @ takeWhile (\<lambda>c. c \<noteq> delim) (pending ?b2) @ [delim]
              \<and> e = None
              \<and> pending b' = tl (dropWhile (\<lambda>c. c \<noteq> delim) (pending ?b2))
              \<and> pendingErr b' = pendingErr ?b2
            else line = (acc @ buffered b) @ pending ?b2 \<and> e = Some (pendingErr ?b2)"
          using "1.IH" (1) [OF _ _ _ r2] by simp
        from nf have tw: "takeWhile (\<lambda>c. c \<noteq> delim) (pending b)
            = buffered b @ takeWhile (\<lambda>c. c \<noteq> delim) (pending ?b2)"
          and dw: "dropWhile (\<lambda>c. c \<noteq> delim) (pending b)
            = dropWhile (\<lambda>c. c \<noteq> delim) (pending ?b2)"
          by (simp_all add: p takeWhile_notin dropWhile_notin)
        from nf have mem: "delim \<in> set (pending b) \<longleftrightarrow> delim \<in> set (pending ?b2)"
          by (simp add: p)
        from ih show ?thesis
          unfolding mem tw dw pe by (simp add: p split: if_splits)
      next
        case False
        from nf None False res
        have r2: "collectFragments delim (fill b) acc = ((line, e), b')"
          by (simp add: collectFragments.simps [of delim b acc])
        from nf None False have "if delim \<in> set (pending (fill b))
            then line = acc @ takeWhile (\<lambda>c. c \<noteq> delim) (pending (fill b)) @ [delim]
              \<and> e = None
              \<and> pending b' = tl (dropWhile (\<lambda>c. c \<noteq> delim) (pending (fill b)))
              \<and> pendingErr b' = pendingErr (fill b)
            else line = acc @ pending (fill b) \<and> e = Some (pendingErr (fill b))"
          using "1.IH" (2) [OF _ _ _ r2] by simp
        then show ?thesis by (simp only: fill_pending [OF None])
      qed
    qed
  qed
qed




lemma ReadString_spec:
  "ReadString b LF = ((line, e), b') \<Longrightarrow>
   (if LF \<in> set (pending b)
    then line = takeWhile (\<lambda>c. c \<noteq> LF) (pending b) @ [LF] \<and> e = None
         \<and> pending b' = tl (dropWhile (\<lambda>c. c \<noteq> LF) (pending b))
         \<and> pendingErr b' = pendingErr b
    else line = pending b \<and> e = Some (pendingErr b))"
  unfolding ReadString_def using collectFragments_spec [of LF b "[]" line e b'] by simp

lemma ReadString_agree:
  assumes "pending b1 = pending b2" and "pendingErr b1 = pendingErr b2"
    and "ReadString b1 LF = (r1, b1')" and "ReadString b2 LF = (r2, b2')"
  shows "r1 = r2 \<and> (snd r1 = None \<longrightarrow> pending b1' = pending b2' \<and> pendingErr b1' = pendingErr b2')"
proof -
  obtain l1 e1 l2 e2 where r: "r1 = (l1, e1)" "r2 = (l2, e2)" by (cases r1, cases r2) auto
  from ReadString_spec [of b1 l1 e1 b1'] ReadString_spec [of b2 l2 e2 b2'] assms r
  show ?thesis by (auto split: if_splits)
qed

section \<open>The parser does not see how the bytes arrived\<close>

text \<open>What a caller can see of a request: its fields and the count of its body reader.\<close>

definition fields :: "HTTPReq \<Rightarrow> string \<times> string \<times> string \<times> Header list \<times> int option" where
  "fields req = (Method req, URI req, Version req, Headers req, map_option remaining (Body req))"

definition bodyOn :: "HTTPReq result \<Rightarrow> Reader \<Rightarrow> bool" where
  "bodyOn res b = (case res of
       Returned req \<Rightarrow> (case Body req of None \<Rightarrow> True | Some r \<Rightarrow> buf r = b)
     | Failed e \<Rightarrow> True | Panicked p \<Rightarrow> True)"

definition visible :: "HTTPReq result \<Rightarrow> (string \<times> string \<times> string \<times> Header list \<times> int option) result" where
  "visible res = (case res of Returned req \<Rightarrow> Returned (fields req)
     | Failed e \<Rightarrow> Failed e | Panicked p \<Rightarrow> Panicked p)"

lemma afterHeader_agree:
  "visible (afterHeader v b) = visible (afterHeader v c)"
  by (auto simp: afterHeader_def visible_def fields_def Let_def split: sum.splits)

lemma afterHeader_bodyOn:
  "Body (httpReq v) = None \<Longrightarrow> bodyOn (afterHeader v b) b"
  by (auto simp: afterHeader_def bodyOn_def Let_def split: sum.splits)

lemma iteration_agree:
  "(case iteration v r b of
      Continue v' \<Rightarrow> iteration v r c = Continue v'
    | Done res \<Rightarrow> (\<exists>res2. iteration v r c = Done res2 \<and> visible res = visible res2))"
  using afterHeader_agree [of v b c]
  by (auto simp: iteration_def visible_def split: prod.splits option.splits result.splits)

lemma requestLine_Body: "requestLine l req = Returned req' \<Longrightarrow> Body req' = Body req"
  by (auto simp: requestLine_def Let_def split: if_splits)

lemma iteration_bodyOn:
  "Body (httpReq v) = None \<Longrightarrow>
   (case iteration v r b of
      Continue v' \<Rightarrow> Body (httpReq v') = None
    | Done res \<Rightarrow> bodyOn res b)"
  using afterHeader_bodyOn [of v b]
  by (auto simp: iteration_def bodyOn_def split: prod.splits option.splits result.splits
      dest: requestLine_Body)

lemma parseLoop_bodyOn:
  "Body (httpReq v) = None \<Longrightarrow> bodyOn (fst (parseLoop v b)) (snd (parseLoop v b))"
proof (induction v b rule: parseLoop.induct)
  case (1 v b)
  obtain r b' where rs: "ReadString b LF = (r, b')" by (cases "ReadString b LF")
  show ?case
  proof (cases "iteration v r b'")
    case (Continue v')
    with iteration_bodyOn [OF "1.prems", where r = r and b = b'] have "Body (httpReq v') = None" by simp
    from "1.IH" [OF rs [symmetric] Continue this] rs Continue
    show ?thesis by (simp add: parseLoop.simps [of v b])
  next
    case (Done res)
    with iteration_bodyOn [OF "1.prems", where r = r and b = b'] rs
    show ?thesis by (simp add: parseLoop.simps [of v b])
  qed
qed

lemma iteration_Done_error:
  "iteration v (l, Some e) b = Done res \<Longrightarrow> res = Failed (SomethingWentWrong e)"
  by (simp add: iteration_def)

lemma parseLoop_agree:
  "pending b1 = pending b2 \<Longrightarrow> pendingErr b1 = pendingErr b2 \<Longrightarrow>
   visible (fst (parseLoop v b1)) = visible (fst (parseLoop v b2))
   \<and> ((\<exists>req. fst (parseLoop v b1) = Returned req) \<longrightarrow>
        pending (snd (parseLoop v b1)) = pending (snd (parseLoop v b2))
        \<and> pendingErr (snd (parseLoop v b1)) = pendingErr (snd (parseLoop v b2)))"
proof (induction v b1 arbitrary: b2 rule: parseLoop.induct)
  case (1 v b1)
  obtain r1 b1' where rs1: "ReadString b1 LF = (r1, b1')" by (cases "ReadString b1 LF")
  obtain r2 b2' where rs2: "ReadString b2 LF = (r2, b2')" by (cases "ReadString b2 LF")
  from ReadString_agree [OF "1.prems" rs1 rs2]
  have r: "r2 = r1" and p: "snd r1 = None \<Longrightarrow> pending b1' = pending b2' \<and> pendingErr b1' = pendingErr b2'"
    by simp_all
  show ?case
  proof (cases "iteration v r1 b1'")
    case (Continue v')
    with iteration_agree [where v = v and r = r1 and b = b1' and c = b2'] have c2: "iteration v r1 b2' = Continue v'" by simp
    obtain l e where le: "r1 = (l, e)" by (cases r1)
    from iteration_Continue [OF Continue [unfolded le]] le have "snd r1 = None" by simp
    from p [OF this] have pp: "pending b1' = pending b2'" "pendingErr b1' = pendingErr b2'"
      by simp_all
    from "1.IH" [OF rs1 [symmetric] Continue pp]
    show ?thesis
      using rs1 rs2 r Continue c2
      by (simp add: parseLoop.simps [of v b1] parseLoop.simps [of v b2])
  next
    case (Done res)
    with iteration_agree [where v = v and r = r1 and b = b1' and c = b2'] obtain res2 where
      d2: "iteration v r1 b2' = Done res2" and vis: "visible res = visible res2"
      by auto
    have ret: "(\<exists>req. res = Returned req) \<Longrightarrow> snd r1 = None"
    proof -
      assume a: "\<exists>req. res = Returned req"
      obtain l e where le: "r1 = (l, e)" by (cases r1)
      show "snd r1 = None"
      proof (cases e)
        case None
        with le show ?thesis by simp
      next
        case (Some x)
        with Done le iteration_Done_error [of v l x b1' res] a show ?thesis by auto
      qed
    qed
    show ?thesis
      using rs1 rs2 r Done d2 vis p ret
      by (auto simp add: parseLoop.simps [of v b1] parseLoop.simps [of v b2])
  qed
qed


section \<open>Reading a body to its end\<close>

text \<open>
  A transport that hands over bytes without errors and then ends, as \<open>conn fs\<close>
  does; a reader on such a transport has no error pending other than the end.
\<close>

definition cleanSrc :: "source \<Rightarrow> bool" where
  "cleanSrc s = list_all (\<lambda>x. snd x = None) s"

definition clean :: "Reader \<Rightarrow> bool" where
  "clean b = (cleanSrc (rd b) \<and> (err b = None \<or> (err b = Some EOF \<and> rd b = [])))"

lemma srcRead_clean:
  "cleanSrc s \<Longrightarrow> srcRead s k = ((d, e), s') \<Longrightarrow>
   cleanSrc s' \<and> (e = None \<or> (e = Some EOF \<and> d = [] \<and> s' = []))"
  by (induction s k arbitrary: d e s' rule: srcRead.induct)
     (auto simp: cleanSrc_def split: if_splits)

lemma srcRead_progress: "0 < k \<Longrightarrow> srcRead s k = ((d, None), s') \<Longrightarrow> d \<noteq> []"
  by (induction s k arbitrary: d s' rule: srcRead.induct) (auto split: if_splits)

lemma srcRead_never_idle: "0 < k \<Longrightarrow> srcRead s k \<noteq> (([], None), s')"
  using srcRead_progress [of k s "[]" s'] by auto

lemma bufioRead_progress:
  assumes "0 < k" and "bufioRead b k = ((d, None), b')"
  shows "d \<noteq> []"
proof (cases "buffered b = []")
  case False
  with assms show ?thesis by (auto simp: bufioRead_def)
next
  case True
  show ?thesis
  proof (cases "bufSize \<le> k")
    case big: True
    obtain x e s where sr: "srcRead (rd b) k = ((x, e), s)" by (metis surj_pair)
    with assms True big have "e = None" and "x = d"
      by (auto simp: bufioRead_def split: option.splits)
    with sr srcRead_progress [OF assms(1)] show ?thesis by blast
  next
    case small: False
    obtain x e s where sr: "srcRead (rd b) bufSize = ((x, e), s)" by (metis surj_pair)
    have bs: "0 < bufSize" by (simp add: bufSize_def)
    show ?thesis
    proof (cases "x = []")
      case True
      with assms \<open>buffered b = []\<close> small sr have "e = None"
        by (auto simp: bufioRead_def split: option.splits)
      with sr True srcRead_never_idle [OF bs] show ?thesis by blast
    next
      case False
      with assms \<open>buffered b = []\<close> small sr show ?thesis
        by (auto simp: bufioRead_def split: option.splits)
    qed
  qed
qed

lemma Read_progress:
  assumes "Read r (Suc n) = (Returned d, r')"
  shows "0 < remaining r" and "d \<noteq> []" and "remaining r' = remaining r - int (length d)"
    and "0 \<le> remaining r'"
proof -
  from assms have nz: "remaining r \<noteq> 0" and nn: "\<not> min (int (Suc n)) (remaining r) < 0"
    by (auto simp: Read_def Let_def split: if_splits)
  then show pos: "0 < remaining r" by arith
  let ?k = "nat (min (int (Suc n)) (remaining r))"
  from pos have k: "0 < ?k" by simp
  obtain x e b where br: "bufioRead (buf r) ?k = ((x, e), b)" by (metis surj_pair)
  from assms nz nn br have e: "e = None" and d: "x = d"
    and r': "r' = \<lparr>buf = b, remaining = remaining r - int (length d)\<rparr>"
    by (auto simp: Read_def Let_def split: option.splits)
  from bufioRead_progress [OF k] br e d show "d \<noteq> []" by simp
  from r' show "remaining r' = remaining r - int (length d)" by simp
  from bufioRead_length [OF br] d pos r' show "0 \<le> remaining r'" by simp
qed

text \<open>
  A consumer that reads a body to its end, as \<^verbatim>\<open>io.ReadAll\<close> and \<^verbatim>\<open>io.Copy\<close> do: it
  calls \<^verbatim>\<open>Read\<close> with a buffer of \<open>n + 1\<close> bytes until a call returns an error
  (\<^verbatim>\<open>io.EOF\<close> is the regular end) or panics, and keeps the bytes it got.
\<close>

function readAll :: "nat \<Rightarrow> LimitedBodyReader \<Rightarrow> string \<times> (error + panic)" where
  "readAll n r =
     (case Read r (Suc n) of
        (Returned d, r') \<Rightarrow> (case readAll n r' of (ds, fin) \<Rightarrow> (d @ ds, fin))
      | (Failed e, r') \<Rightarrow> ([], Inl e)
      | (Panicked p, r') \<Rightarrow> ([], Inr p))"
  by pat_completeness auto
termination
proof (relation "measure (\<lambda>(n, r). nat (remaining r))")
  show "wf (measure (\<lambda>(n, r). nat (remaining r)))" by simp
next
  fix n :: nat and r :: LimitedBodyReader and x :: "string result" and r' :: LimitedBodyReader
    and d :: string
  assume "(x, r') = Read r (Suc n)" and "x = Returned d"
  then have rd: "Read r (Suc n) = (Returned d, r')" by simp
  from Read_progress [OF rd]
  show "((n, r'), (n, r)) \<in> measure (\<lambda>(n, r). nat (remaining r))"
    by (simp del: length_greater_0_conv) (cases d; simp)
qed

declare readAll.simps [simp del]


lemma srcData_empty_read:
  "cleanSrc s \<Longrightarrow> srcRead s k = ((d, Some e), s') \<Longrightarrow> srcData s = []"
  using srcRead_clean [of s k d "Some e" s'] srcRead_data [of s k d "Some e" s'] by simp

lemma bufioRead_clean:
  assumes cl: "clean b" and k: "0 < k" and br: "bufioRead b k = ((d, e), b')"
  shows "clean b' \<and>
         (if pending b = [] then d = [] \<and> e = Some EOF \<and> pending b' = []
          else e = None \<and> d \<noteq> [] \<and> pending b = d @ pending b')"
proof (cases "buffered b = []")
  case False
  with cl k br show ?thesis
    by (auto simp: bufioRead_def clean_def pending_def)
next
  case empty: True
  show ?thesis
  proof (cases "err b")
    case (Some x)
    with cl have eb: "err b = Some EOF" and rb: "rd b = []" by (auto simp: clean_def)
    from br k empty have "d = []" and "e = Some EOF" and "b' = b\<lparr>err := None\<rparr>"
      by (simp_all add: bufioRead_def eb)
    then show ?thesis
      by (simp add: clean_def pending_def cleanSrc_def eb rb empty)
  next
    case None
    with cl have cs: "cleanSrc (rd b)" by (simp add: clean_def)
    from None empty have pb: "pending b = srcData (rd b)" by (simp add: pending_def)
    show ?thesis
    proof (cases "bufSize \<le> k")
      case True
      obtain x y s where sr: "srcRead (rd b) k = ((x, y), s)" by (metis surj_pair)
      with br k empty None True have res: "d = x" "e = y" "b' = \<lparr>buffered = [], err = None, rd = s\<rparr>"
        by (auto simp: bufioRead_def)
      from srcRead_clean [OF cs sr] srcRead_data [OF sr] srcRead_progress [OF k, of "rd b" x s] sr
      show ?thesis
        unfolding res pb by (cases y) (auto simp: clean_def pending_def)
    next
      case False
      have bs: "0 < bufSize" by (simp add: bufSize_def)
      obtain x y s where sr: "srcRead (rd b) bufSize = ((x, y), s)" by (metis surj_pair)
      from srcRead_clean [OF cs sr] srcRead_data [OF sr] srcRead_progress [OF bs, of "rd b" x s] sr
      have facts: "cleanSrc s" "y = None \<or> (y = Some EOF \<and> x = [] \<and> s = [])"
        "srcData (rd b) = x @ dataAfter y s" "y = None \<Longrightarrow> x \<noteq> []"
        by (cases y; auto)+
      show ?thesis
      proof (cases "x = []")
        case True
        with br k empty None False sr
        have res: "d = []" "e = y" "b' = \<lparr>buffered = [], err = None, rd = s\<rparr>"
          by (auto simp: bufioRead_def)
        from facts True show ?thesis
          unfolding res pb by (auto simp: clean_def pending_def)
      next
        case nonempty: False
        with br k empty None False sr
        have res: "d = take k x" "e = None" "b' = \<lparr>buffered = drop k x, err = y, rd = s\<rparr>"
          by (auto simp: bufioRead_def)
        from facts nonempty k show ?thesis
          unfolding res pb by (auto simp: clean_def pending_def)
      qed
    qed
  qed
qed

lemma readAll_negative:
  "remaining r < 0 \<Longrightarrow> readAll n r = ([], Inr SliceBoundsOutOfRange)"
  by (simp add: readAll.simps [of n r] Read_def Let_def)

lemma readAll_spec:
  "clean (buf r) \<Longrightarrow> 0 \<le> remaining r \<Longrightarrow>
   readAll n r =
     (take (nat (remaining r)) (pending (buf r)),
      Inl (if nat (remaining r) \<le> length (pending (buf r)) then EOF else AnErrorOccurred EOF))"
proof (induction n r rule: readAll.induct)
  case (1 n r)
  show ?case
  proof (cases "remaining r = 0")
    case True
    then show ?thesis by (simp add: readAll.simps [of n r] Read_def)
  next
    case False
    with "1.prems" have pos: "0 < remaining r" by simp
    let ?k = "nat (min (int (Suc n)) (remaining r))"
    from pos have k: "0 < ?k" by simp
    obtain d e b where br: "bufioRead (buf r) ?k = ((d, e), b)" by (metis surj_pair)
    note bc = bufioRead_clean [OF "1.prems"(1) k br]
    from bufioRead_length [OF br] pos have len: "int (length d) \<le> remaining r" by arith
    show ?thesis
    proof (cases "pending (buf r) = []")
      case True
      with bc have "e = Some EOF" by simp
      with pos br True show ?thesis
        by (simp add: readAll.simps [of n r] Read_def Let_def)
    next
      case ne: False
      with bc have e: "e = None" and d: "d \<noteq> []" and p: "pending (buf r) = d @ pending b"
        and cb: "clean b" by simp_all
      let ?r' = "\<lparr>buf = b, remaining = remaining r - int (length d)\<rparr>"
      from pos br e have rd: "Read r (Suc n) = (Returned d, ?r')"
        by (simp add: Read_def Let_def)
      from len cb have "clean (buf ?r')" and "0 \<le> remaining ?r'" by simp_all
      from "1.IH" [OF rd [symmetric] refl this]
      have ih: "readAll n ?r' =
          (take (nat (remaining r - int (length d))) (pending b),
           Inl (if nat (remaining r - int (length d)) \<le> length (pending b)
                then EOF else AnErrorOccurred EOF))"
        by simp
      from len have t: "take (nat (remaining r)) (d @ pending b)
          = d @ take (nat (remaining r - int (length d))) (pending b)"
        by (simp add: nat_diff_distrib)
      from len have c: "nat (remaining r) \<le> length (d @ pending b)
          \<longleftrightarrow> nat (remaining r - int (length d)) \<le> length (pending b)"
        by auto
      show ?thesis
        unfolding p t c by (simp add: readAll.simps [of n r] rd ih)
    qed
  qed
qed


lemma fill_clean: "clean b \<Longrightarrow> err b = None \<Longrightarrow> clean (fill b)"
proof -
  assume cl: "clean b" and e: "err b = None"
  obtain d x s where r: "srcRead (rd b) (bufSize - length (buffered b)) = ((d, x), s)"
    by (metis surj_pair)
  from cl have "cleanSrc (rd b)" by (simp add: clean_def)
  from srcRead_clean [OF this r] r e show ?thesis
    by (auto simp: fill_def clean_def)
qed

lemma collectFragments_clean:
  "clean b \<Longrightarrow> clean (snd (collectFragments delim b acc))"
proof (induction delim b acc rule: collectFragments.induct)
  case (1 delim b acc)
  show ?case
  proof (cases "delim \<in> set (buffered b)")
    case True
    with "1.prems" show ?thesis
      by (simp add: collectFragments.simps [of delim b acc] clean_def)
  next
    case nf: False
    show ?thesis
    proof (cases "err b")
      case (Some x)
      with nf "1.prems" show ?thesis
        by (auto simp: collectFragments.simps [of delim b acc] clean_def)
    next
      case None
      show ?thesis
      proof (cases "bufSize \<le> length (buffered b)")
        case True
        from "1.prems" have "clean (b\<lparr>buffered := []\<rparr>)" by (simp add: clean_def)
        with "1.IH" (1) nf None True show ?thesis
          by (simp add: collectFragments.simps [of delim b acc])
      next
        case False
        from fill_clean [OF "1.prems" None] "1.IH" (2) nf None False show ?thesis
          by (simp add: collectFragments.simps [of delim b acc])
      qed
    qed
  qed
qed

lemma parseLoop_clean: "clean b \<Longrightarrow> clean (snd (parseLoop v b))"
proof (induction v b rule: parseLoop.induct)
  case (1 v b)
  obtain r b' where rs: "ReadString b LF = (r, b')" by (cases "ReadString b LF")
  from collectFragments_clean [OF "1.prems", of LF "[]"] rs have cb: "clean b'"
    by (simp add: ReadString_def)
  show ?case
  proof (cases "iteration v r b'")
    case (Continue v')
    from "1.IH" [OF rs [symmetric] Continue cb] rs Continue
    show ?thesis by (simp add: parseLoop.simps [of v b])
  next
    case (Done res)
    with cb rs show ?thesis by (simp add: parseLoop.simps [of v b])
  qed
qed

lemma srcData_conn: "srcData (conn fs) = concat fs"
  by (induction fs) (simp_all add: conn_def)

lemma srcErr_conn: "srcErr (conn fs) = EOF"
  by (induction fs) (simp_all add: conn_def)

lemma NewReader_conn:
  "pending (NewReader (conn fs)) = concat fs"
  "pendingErr (NewReader (conn fs)) = EOF"
  "clean (NewReader (conn fs))"
proof -
  show "pending (NewReader (conn fs)) = concat fs"
    by (simp add: NewReader_def pending_def srcData_conn)
  show "pendingErr (NewReader (conn fs)) = EOF"
    by (simp add: NewReader_def pendingErr_def srcErr_conn)
  show "clean (NewReader (conn fs))"
    by (simp add: NewReader_def clean_def cleanSrc_def conn_def list_all_iff)
qed

text \<open>
  What the caller of the parser can observe: the error or panic, or the fields of the
  request together with what reading its body to the end gives.
\<close>

definition observe ::
  "nat \<Rightarrow> HTTPReq result \<Rightarrow>
   (string \<times> string \<times> string \<times> Header list \<times> (string \<times> (error + panic)) option) result" where
  "observe n res =
     (case res of
        Returned req \<Rightarrow>
          Returned (Method req, URI req, Version req, Headers req,
                    map_option (readAll n) (Body req))
      | Failed e \<Rightarrow> Failed e
      | Panicked p \<Rightarrow> Panicked p)"

lemma readAll_agree:
  assumes "clean (buf r1)" and "clean (buf r2)" and "pending (buf r1) = pending (buf r2)"
    and "remaining r1 = remaining r2"
  shows "readAll n1 r1 = readAll n2 r2"
proof (cases "remaining r1 < 0")
  case True
  with assms show ?thesis by (simp add: readAll_negative)
next
  case False
  with assms show ?thesis by (simp add: readAll_spec)
qed

text \<open>
  Two runs of the parser on the buffered reader over the same bytes, cut into
  fragments in any two ways \<open>fs1\<close> and \<open>fs2\<close> (one byte at a time and a single
  write are two of them), end alike: with the same error or panic, or with requests
  of the same method, target, version and headers whose bodies, read to the end with
  buffers of any two sizes, give the same bytes and end the same way.
\<close>

lemma bufio_fragmentation:
  assumes "concat fs1 = concat fs2"
  shows "observe n1 (fst (parseHTTPRequest (NewReader (conn fs1))))
       = observe n2 (fst (parseHTTPRequest (NewReader (conn fs2))))"
proof -
  let ?b1 = "NewReader (conn fs1)" and ?b2 = "NewReader (conn fs2)"
  let ?p1 = "parseLoop initLocals ?b1" and ?p2 = "parseLoop initLocals ?b2"
  from assms have pe: "pending ?b1 = pending ?b2" "pendingErr ?b1 = pendingErr ?b2"
    by (simp_all add: NewReader_conn)
  note ag = parseLoop_agree [OF pe, of initLocals]
  have nb: "Body (httpReq initLocals) = None" by (simp add: initLocals_def emptyReq_def)
  note bo1 = parseLoop_bodyOn [OF nb, of ?b1] and bo2 = parseLoop_bodyOn [OF nb, of ?b2]
  note c1 = parseLoop_clean [OF NewReader_conn(3), of initLocals fs1]
    and c2 = parseLoop_clean [OF NewReader_conn(3), of initLocals fs2]
  show ?thesis
  proof (cases "fst ?p1")
    case (Failed e)
    with ag show ?thesis
      by (cases "fst ?p2") (simp_all add: visible_def observe_def parseHTTPRequest_def)
  next
    case (Panicked p)
    with ag show ?thesis
      by (cases "fst ?p2") (simp_all add: visible_def observe_def parseHTTPRequest_def)
  next
    case (Returned q1)
    with ag obtain q2 where q2: "fst ?p2 = Returned q2" and f: "fields q1 = fields q2"
      by (cases "fst ?p2") (simp_all add: visible_def)
    from ag Returned have pp: "pending (snd ?p1) = pending (snd ?p2)" by simp
    have "map_option (readAll n1) (Body q1) = map_option (readAll n2) (Body q2)"
    proof (cases "Body q1")
      case None
      with f show ?thesis by (cases "Body q2") (simp_all add: fields_def)
    next
      case (Some r1)
      with f obtain r2 where r2: "Body q2 = Some r2" and rem: "remaining r1 = remaining r2"
        by (cases "Body q2") (simp_all add: fields_def)
      from bo1 Returned Some have b1: "buf r1 = snd ?p1" by (simp add: bodyOn_def)
      from bo2 q2 r2 have b2: "buf r2 = snd ?p2" by (simp add: bodyOn_def)
      from readAll_agree [of r1 r2 n1 n2] c1 c2 pp rem b1 b2
      have "readAll n1 r1 = readAll n2 r2" by simp
      with Some r2 show ?thesis by simp
    qed
    with f Returned q2 show ?thesis
      by (simp add: observe_def parseHTTPRequest_def fields_def)
  qed
qed

lemma fragmentation_example:
  "observe 7 (fst (parseHTTPRequest (NewReader (conn
      [''POST /u HTTP/1.1'' @ CRLF @ ''Content-Length: 5'' @ CRLF @ CRLF @ ''x'' @ [LF]
       @ ''hello, world'']))))
   = Returned (''POST'', ''/u'', ''HTTP/1.1'', [\<lparr>Name = ''content-length'', Value = ''5''\<rparr>],
       Some (''hello'', Inl EOF))"
  by code_simp

section \<open>The cap on the header block\<close>

text \<open>
  The lines of a byte string, each with its \<open>\n\<close>; a last piece without \<open>\n\<close> is
  kept as it is.
\<close>

fun linesFrom :: "string \<Rightarrow> string \<Rightarrow> string list" where
  "linesFrom cur [] = (if cur = [] then [] else [cur])"
| "linesFrom cur (c # cs) =
     (if c = LF then (cur @ [c]) # linesFrom [] cs else linesFrom (cur @ [c]) cs)"

definition splitLines :: "string \<Rightarrow> string list" where
  "splitLines s = linesFrom [] s"

text \<open>
  The size of a header block: the bytes of the lines up to and including the first
  line that is \<open>\r\n\<close> alone, if there is one.
\<close>

fun headerSize :: "string list \<Rightarrow> nat option" where
  "headerSize [] = None"
| "headerSize (l # ls) =
     (if l = CRLF then Some (length l)
      else map_option (\<lambda>n. length l + n) (headerSize ls))"

lemma linesFrom_first:
  "LF \<in> set s \<Longrightarrow>
   linesFrom cur s = (cur @ takeWhile (\<lambda>c. c \<noteq> LF) s @ [LF])
                      # linesFrom [] (tl (dropWhile (\<lambda>c. c \<noteq> LF) s))"
  by (induction s arbitrary: cur) auto

lemma splitLines_first:
  "LF \<in> set s \<Longrightarrow>
   splitLines s = (takeWhile (\<lambda>c. c \<noteq> LF) s @ [LF])
                   # splitLines (tl (dropWhile (\<lambda>c. c \<noteq> LF) s))"
  unfolding splitLines_def using linesFrom_first [of s "[]"] by simp

lemma iteration_header_phase:
  assumes "\<not> isHeaderComplete v"
  shows "iteration v r b \<noteq> Done (Returned req)"
    and "iteration v (l, e) b = Continue v' \<Longrightarrow> isHeaderComplete v' = (l = CRLF)"
  using assms
  by (auto simp: iteration_def requestLine_def headerLine_def Let_def
      split: prod.splits option.splits result.splits if_splits)

lemma parseLoop_header_bound:
  "fst (parseLoop v b) = Returned req \<Longrightarrow> \<not> isHeaderComplete v \<Longrightarrow>
   \<exists>n. headerSize (splitLines (pending b)) = Some n \<and> headerBytes v + n \<le> 8192"
proof (induction v b rule: parseLoop.induct)
  case (1 v b)
  obtain l e b' where rs: "ReadString b LF = ((l, e), b')" by (metis surj_pair)
  show ?case
  proof (cases "iteration v (l, e) b'")
    case (Done res)
    with rs "1.prems"(1) have "res = Returned req" by (simp add: parseLoop.simps [of v b])
    with Done iteration_header_phase(1) [OF "1.prems"(2)] show ?thesis by simp
  next
    case (Continue v')
    from iteration_Continue [OF Continue]
    have e: "e = None" and hb: "headerBytes v' = headerBytes v + length l"
      and le: "headerBytes v' \<le> 8192" by simp_all
    from ReadString_spec [OF rs] e
    have lf: "LF \<in> set (pending b)"
      and l: "l = takeWhile (\<lambda>c. c \<noteq> LF) (pending b) @ [LF]"
      and p': "pending b' = tl (dropWhile (\<lambda>c. c \<noteq> LF) (pending b))"
      by (auto split: if_splits)
    from splitLines_first [OF lf] l p'
    have sl: "splitLines (pending b) = l # splitLines (pending b')" by simp
    show ?thesis
    proof (cases "l = CRLF")
      case True
      with sl hb le show ?thesis by simp
    next
      case False
      with iteration_header_phase(2) [OF "1.prems"(2) Continue]
      have nc: "\<not> isHeaderComplete v'" by simp
      from rs Continue "1.prems"(1) have "fst (parseLoop v' b') = Returned req"
        by (simp add: parseLoop.simps [of v b])
      from "1.IH" [OF rs [symmetric] Continue this nc]
      obtain n where "headerSize (splitLines (pending b')) = Some n"
        and "headerBytes v' + n \<le> 8192" by blast
      with sl False hb show ?thesis by simp
    qed
  qed
qed


subsection \<open>A line longer than the cap\<close>

text \<open>A transport none of whose deliveries is empty.\<close>

definition solid :: "source \<Rightarrow> bool" where
  "solid s = list_all (\<lambda>x. fst x \<noteq> []) s"

lemma srcRead_solid: "solid s \<Longrightarrow> srcRead s k = (r, s') \<Longrightarrow> solid s'"
  by (induction s k arbitrary: r s' rule: srcRead.induct)
     (auto simp: solid_def split: if_splits)

lemma fill_solid: "solid (rd b) \<Longrightarrow> solid (rd (fill b))"
proof -
  assume a: "solid (rd b)"
  obtain d x s where r: "srcRead (rd b) (bufSize - length (buffered b)) = ((d, x), s)"
    by (metis surj_pair)
  from srcRead_solid [OF a r] r show ?thesis by (simp add: fill_def)
qed

lemma collectFragments_solid:
  "solid (rd b) \<Longrightarrow> solid (rd (snd (collectFragments delim b acc)))"
proof (induction delim b acc rule: collectFragments.induct)
  case (1 delim b acc)
  from "1.prems" have s0: "solid (rd (b\<lparr>buffered := []\<rparr>))" by simp
  from "1.prems" "1.IH" (1) [OF _ _ _ s0] "1.IH" (2) [OF _ _ _ fill_solid [OF "1.prems"]]
  show ?case
    by (simp add: collectFragments.simps [of delim b acc])
qed

lemma collectFragments_err_None:
  "clean b \<Longrightarrow> err b = None \<or> delim \<notin> set (buffered b) \<Longrightarrow>
   collectFragments delim b acc = ((line, None), b') \<Longrightarrow> err b' = None"
proof (induction delim b acc rule: collectFragments.induct)
  case (1 delim b acc)
  note res = "1.prems"(3)
  show ?case
  proof (cases "delim \<in> set (buffered b)")
    case True
    with "1.prems"(2) res show ?thesis
      by (auto simp: collectFragments.simps [of delim b acc])
  next
    case nf: False
    show ?thesis
    proof (cases "err b")
      case (Some x)
      with nf res show ?thesis by (simp add: collectFragments.simps [of delim b acc])
    next
      case None
      show ?thesis
      proof (cases "bufSize \<le> length (buffered b)")
        case True
        from "1.prems"(1) have c: "clean (b\<lparr>buffered := []\<rparr>)" by (simp add: clean_def)
        from nf None True res
        have "collectFragments delim (b\<lparr>buffered := []\<rparr>) (acc @ buffered b) = ((line, None), b')"
          by (simp add: collectFragments.simps [of delim b acc])
        from "1.IH" (1) [OF nf _ True c _ this] None show ?thesis by simp
      next
        case False
        obtain d x s where r: "srcRead (rd b) (bufSize - length (buffered b)) = ((d, x), s)"
          by (metis surj_pair)
        from "1.prems"(1) have "cleanSrc (rd b)" by (simp add: clean_def)
        from srcRead_clean [OF this r] r nf None
        have ok: "err (fill b) = None \<or> delim \<notin> set (buffered (fill b))"
          by (auto simp: fill_def)
        from nf None False res
        have "collectFragments delim (fill b) acc = ((line, None), b')"
          by (simp add: collectFragments.simps [of delim b acc])
        from "1.IH" (2) [OF nf _ False fill_clean [OF "1.prems"(1) None] ok this] None
        show ?thesis by simp
      qed
    qed
  qed
qed

lemma solid_no_data: "solid s \<Longrightarrow> cleanSrc s \<Longrightarrow> srcData s = [] \<Longrightarrow> s = []"
  by (cases s) (auto simp: solid_def cleanSrc_def)

text \<open>A reader on a connection that has handed out, as a line, all it was sent.\<close>

lemma ReadString_drains:
  assumes "list_all (\<lambda>f. f \<noteq> []) fs" and "LF \<in> set (concat fs)"
    and "tl (dropWhile (\<lambda>c. c \<noteq> LF) (concat fs)) = []"
  shows "ReadString (NewReader (conn fs)) LF
         = ((concat fs, None), \<lparr>buffered = [], err = None, rd = []\<rparr>)"
proof -
  let ?b = "NewReader (conn fs)"
  obtain l e b' where rs: "ReadString ?b LF = ((l, e), b')" by (metis surj_pair)
  from ReadString_spec [OF rs] assms(2,3)
  have l: "l = takeWhile (\<lambda>c. c \<noteq> LF) (concat fs) @ [LF]" and e: "e = None"
    and p: "pending b' = []"
    by (simp_all add: NewReader_conn)
  from assms(2) have "dropWhile (\<lambda>c. c \<noteq> LF) (concat fs) \<noteq> []"
    by (simp add: dropWhile_eq_Nil_conv)
  then have "hd (dropWhile (\<lambda>c. c \<noteq> LF) (concat fs)) = LF"
    using hd_dropWhile [of "\<lambda>c. c \<noteq> LF" "concat fs"] by simp
  with assms(3) \<open>dropWhile (\<lambda>c. c \<noteq> LF) (concat fs) \<noteq> []\<close>
  have "dropWhile (\<lambda>c. c \<noteq> LF) (concat fs) = [LF]"
    by (cases "dropWhile (\<lambda>c. c \<noteq> LF) (concat fs)") simp_all
  with takeWhile_dropWhile_id [of "\<lambda>c. c \<noteq> LF" "concat fs"] l
  have l': "l = concat fs" by simp
  have cl: "clean b'"
    using collectFragments_clean [OF NewReader_conn(3), of LF fs "[]"] rs
    by (simp add: ReadString_def)
  have en: "err b' = None"
    using collectFragments_err_None [OF NewReader_conn(3), of fs LF "[]" l b'] rs e
    by (simp add: ReadString_def NewReader_def)
  from assms(1) have "solid (rd ?b)"
    by (simp add: solid_def NewReader_def conn_def list_all_iff)
  from collectFragments_solid [OF this, of LF "[]"] rs have so: "solid (rd b')"
    by (simp add: ReadString_def)
  from p en have "buffered b' = []" and "srcData (rd b') = []" by (simp_all add: pending_def)
  moreover from solid_no_data [OF so] cl this(2) have "rd b' = []" by (simp add: clean_def)
  ultimately have "b' = \<lparr>buffered = [], err = None, rd = []\<rparr>" using en by (cases b') simp
  with rs l' e show ?thesis by simp
qed

text \<open>8193 bytes without a line end.\<close>

definition longLine :: string where
  "longLine = replicate 8193 (CHR ''a'')"

lemma longLine_facts:
  "length longLine = 8193" "LF \<notin> set longLine" "longLine \<noteq> []"
  by (auto simp: longLine_def LF_def)

lemma ReadString_longLine:
  "ReadString (NewReader (conn [longLine, ''b'', [LF]])) LF
   = ((longLine @ ''b'' @ [LF], None), \<lparr>buffered = [], err = None, rd = []\<rparr>)"
  using ReadString_drains [of "[longLine, ''b'', [LF]]"] longLine_facts
  by (simp add: dropWhile_notin LF_def)

text \<open>
  Claim C1 does not hold of the code. A connection delivers 8193 bytes with no \<open>\n\<close>
  among them, then one more byte, then \<open>\n\<close>. When the first delivery has been
  taken, more than 8192 bytes of header have accumulated and no empty line has
  appeared, yet the parser does not fail there: the cap is tested only when
  \<^verbatim>\<open>ReadString\<close> has returned, and \<^verbatim>\<open>ReadString\<close> goes on reading until the line ends.
  Both later deliveries are taken from the connection (the transport is left empty)
  before the parser returns its error.
\<close>

theorem long_line_read_to_its_end:
  "parseHTTPRequest (NewReader (conn [longLine, ''b'', [LF]]))
   = (Failed BufferIsTooLarge, \<lparr>buffered = [], err = None, rd = []\<rparr>)"
  using longLine_facts(1)
  by (simp add: parseHTTPRequest_def parseLoop.simps ReadString_longLine iteration_def
      initLocals_def)

text \<open>
  The same with any number of further deliveries before the line ends: all of them
  are taken.
\<close>

lemma long_line_any_length:
  assumes "list_all (\<lambda>f. f \<noteq> [] \<and> LF \<notin> set f) fs"
  shows "parseHTTPRequest (NewReader (conn (longLine # fs @ [[LF]])))
         = (Failed BufferIsTooLarge, \<lparr>buffered = [], err = None, rd = []\<rparr>)"
proof -
  from assms have ne: "list_all (\<lambda>f. f \<noteq> []) (longLine # fs @ [[LF]])"
    using longLine_facts(3) by (simp add: list_all_iff)
  from assms have nl: "LF \<notin> set (longLine @ concat fs)"
    using longLine_facts(2) by (auto simp: list_all_iff)
  have cc: "concat (longLine # fs @ [[LF]]) = (longLine @ concat fs) @ [LF]" by simp
  have "ReadString (NewReader (conn (longLine # fs @ [[LF]]))) LF
        = ((concat (longLine # fs @ [[LF]]), None), \<lparr>buffered = [], err = None, rd = []\<rparr>)"
    by (rule ReadString_drains [OF ne]) (simp_all only: cc dropWhile_notin [OF nl], simp_all)
  then show ?thesis
    using longLine_facts(1)
    by (simp add: parseHTTPRequest_def parseLoop.simps iteration_def initLocals_def)
qed

text \<open>
  What does hold: however the bytes are cut into fragments, the parser returns a
  request only if what the reader holds starts with a header block, the lines up to
  and including the empty line, of at most 8192 bytes; and when \<^verbatim>\<open>ReadString\<close> has
  returned the line that takes the running total past 8192, the parser returns
  \<open>Buffer is too large\<close> at once and leaves the reader as that call left it.
\<close>

lemma header_block_bound:
  "fst (parseHTTPRequest b) = Returned req \<Longrightarrow>
   \<exists>n. headerSize (splitLines (pending b)) = Some n \<and> n \<le> 8192"
  using parseLoop_header_bound [of initLocals b req]
  by (simp add: parseHTTPRequest_def initLocals_def)

lemma cap_tested_after_line:
  "\<not> isHeaderComplete v \<Longrightarrow> ReadString c LF = ((l, None), c') \<Longrightarrow>
   8192 < headerBytes v + length l \<Longrightarrow> parseLoop v c = (Failed BufferIsTooLarge, c')"
  by (simp add: parseLoop.simps [of v c] iteration_def)

lemma header_block_example:
  "fst (parseHTTPRequest (NewReader (conn
      [''GET /a HTTP/1.1'' @ CRLF @ ''Host: x'' @ CRLF @ CRLF @ ''more'' @ [LF]])))
   = Returned \<lparr>Method = ''GET'', URI = ''/a'', Version = ''HTTP/1.1'',
       Headers = [\<lparr>Name = ''host'', Value = ''x''\<rparr>], Body = None\<rparr>"
  "headerSize (splitLines
      (''GET /a HTTP/1.1'' @ CRLF @ ''Host: x'' @ CRLF @ CRLF @ ''more'' @ [LF])) = Some 28"
  by code_simp+

section \<open>What the returned request is made of\<close>

lemma iteration_Continue_keeps:
  assumes "iteration v r b = Continue v'"
  shows "contentLength v' = contentLength v" and "Body (httpReq v') = Body (httpReq v)"
    and "count v \<le> count v'"
    and "0 < count v \<Longrightarrow> httpReq v' = httpReq v"
  using assms
  by (auto simp: iteration_def requestLine_def Let_def
      split: prod.splits option.splits result.splits if_splits)

lemma iteration_Done_Returned:
  assumes "iteration v r b = Done (Returned req)"
  shows "Method req = Method (httpReq v)" and "URI req = URI (httpReq v)"
    and "Version req = Version (httpReq v)" and "Headers req = headerArr v"
    and "if Method req = ''GET'' \<or> Method req = ''HEAD'' then Body req = Body (httpReq v)
         else (\<exists>cl. scanContentLength (headerArr v) (contentLength v) = Inr cl
                \<and> Body req = Some \<lparr>buf = b, remaining = cl\<rparr>)"
  using assms
  by (auto simp: iteration_def afterHeader_def Let_def
      split: prod.splits option.splits result.splits if_splits sum.splits)

lemma parseLoop_fields:
  "0 < count v \<Longrightarrow> fst (parseLoop v b) = Returned req \<Longrightarrow>
   Method req = Method (httpReq v) \<and> URI req = URI (httpReq v)
   \<and> Version req = Version (httpReq v)"
proof (induction v b rule: parseLoop.induct)
  case (1 v b)
  obtain r b' where rs: "ReadString b LF = (r, b')" by (cases "ReadString b LF")
  show ?case
  proof (cases "iteration v r b'")
    case (Continue v')
    from iteration_Continue_keeps(3,4) [OF Continue] "1.prems"(1)
    have c: "0 < count v'" and h: "httpReq v' = httpReq v" by auto
    from rs Continue "1.prems"(2) have "fst (parseLoop v' b') = Returned req"
      by (simp add: parseLoop.simps [of v b])
    from "1.IH" [OF rs [symmetric] Continue c this] h show ?thesis by simp
  next
    case (Done res)
    with rs "1.prems"(2) have "iteration v r b' = Done (Returned req)"
      by (simp add: parseLoop.simps [of v b])
    from iteration_Done_Returned(1-3) [OF this] show ?thesis by simp
  qed
qed

lemma parseLoop_body:
  "parseLoop v b = (Returned req, b') \<Longrightarrow>
   (if Method req = ''GET'' \<or> Method req = ''HEAD'' then Body req = Body (httpReq v)
    else (\<exists>cl. scanContentLength (Headers req) (contentLength v) = Inr cl
           \<and> Body req = Some \<lparr>buf = b', remaining = cl\<rparr>))"
proof (induction v b rule: parseLoop.induct)
  case (1 v b)
  obtain r b1 where rs: "ReadString b LF = (r, b1)" by (cases "ReadString b LF")
  show ?case
  proof (cases "iteration v r b1")
    case (Continue v')
    from rs Continue "1.prems" have "parseLoop v' b1 = (Returned req, b')"
      by (simp add: parseLoop.simps [of v b])
    from "1.IH" [OF rs [symmetric] Continue this]
    show ?thesis unfolding iteration_Continue_keeps(1,2) [OF Continue] .
  next
    case (Done res)
    with rs "1.prems" have "iteration v r b1 = Done (Returned req)" and "b' = b1"
      by (simp_all add: parseLoop.simps [of v b])
    from iteration_Done_Returned(4,5) [OF this(1)] this(2) show ?thesis by simp
  qed
qed

text \<open>The first line of a byte string that has one.\<close>

definition firstLine :: "string \<Rightarrow> string" where
  "firstLine s = takeWhile (\<lambda>c. c \<noteq> LF) s @ [LF]"

section \<open>The request line\<close>

text \<open>
  Claim C5, amended. Whenever the parser returns a request and the first line is not
  the empty line, that line splits on single spaces into at least three pieces, and
  the method, the target and the version are its first three pieces, trimmed. Pieces
  after the third are not looked at: a first line of more than three pieces is
  accepted, not refused.
\<close>

theorem request_line_tokens:
  assumes "fst (parseHTTPRequest b) = Returned req"
    and "firstLine (pending b) \<noteq> CRLF"
  shows "3 \<le> length (Split (firstLine (pending b)) CHR '' '')
         \<and> Method req = TrimSpace (Split (firstLine (pending b)) CHR '' '' ! 0)
         \<and> URI req = TrimSpace (Split (firstLine (pending b)) CHR '' '' ! 1)
         \<and> Version req = TrimSpace (Split (firstLine (pending b)) CHR '' '' ! 2)"
proof -
  let ?l = "firstLine (pending b)"
  from assms(1) have ret: "fst (parseLoop initLocals b) = Returned req"
    by (simp add: parseHTTPRequest_def)
  obtain l e b' where rs: "ReadString b LF = ((l, e), b')" by (metis surj_pair)
  have nc: "\<not> isHeaderComplete initLocals" by (simp add: initLocals_def)
  show ?thesis
  proof (cases "iteration initLocals (l, e) b'")
    case (Done res)
    with rs ret have "res = Returned req" by (simp add: parseLoop.simps [of initLocals b])
    with Done iteration_header_phase(1) [OF nc] show ?thesis by simp
  next
    case (Continue v')
    from iteration_Continue [OF Continue] have e: "e = None" by simp
    with ReadString_spec [OF rs] have l: "l = ?l" by (auto simp: firstLine_def split: if_splits)
    from Continue e l assms(2)
    have len: "3 \<le> length (Split ?l CHR '' '')"
      and hv: "httpReq v' = emptyReq\<lparr>Method := TrimSpace (Split ?l CHR '' '' ! 0),
                                     URI := TrimSpace (Split ?l CHR '' '' ! 1),
                                     Version := TrimSpace (Split ?l CHR '' '' ! 2)\<rparr>"
      and c: "0 < count v'"
      by (auto simp: iteration_def initLocals_def requestLine_def Let_def
          split: result.splits if_splits)
    from rs Continue ret have "fst (parseLoop v' b') = Returned req"
      by (simp add: parseLoop.simps [of initLocals b])
    from parseLoop_fields [OF c this] len show ?thesis
      by (simp add: hv)
  qed
qed


text \<open>A request line of four pieces, and one of two.\<close>

definition reqFourTokens :: string where
  "reqFourTokens = ''GET /a b HTTP/1.1'' @ CRLF @ CRLF @ ''more'' @ [LF]"

definition reqTwoTokens :: string where
  "reqTwoTokens = ''GET /a'' @ CRLF @ CRLF @ ''more'' @ [LF]"

lemma four_tokens_example:
  "fst (parseHTTPRequest (NewReader (conn [reqFourTokens])))
   = Returned \<lparr>Method = ''GET'', URI = ''/a'', Version = ''b'', Headers = [], Body = None\<rparr>"
  "firstLine reqFourTokens = ''GET /a b HTTP/1.1'' @ CRLF"
  "Split (''GET /a b HTTP/1.1'' @ CRLF) CHR '' '' = [''GET'', ''/a'', ''b'', ''HTTP/1.1'' @ CRLF]"
  by code_simp+

text \<open>
  Claim C5 as stated fails. A first line of four pieces gives a request and no error
  (the third piece is taken for the version); a first line of two pieces gives no
  error result either, the parser panics on the missing index.
\<close>

theorem request_line_tokens_counterexample:
  "length (Split (firstLine reqFourTokens) CHR '' '') = 4
   \<and> fst (parseHTTPRequest (NewReader (conn [reqFourTokens])))
     = Returned \<lparr>Method = ''GET'', URI = ''/a'', Version = ''b'', Headers = [], Body = None\<rparr>
   \<and> length (Split (firstLine reqTwoTokens) CHR '' '') = 2
   \<and> fst (parseHTTPRequest (NewReader (conn [reqTwoTokens]))) = Panicked IndexOutOfRange"
  by code_simp

theorem request_line_tokens_witness:
  "fst (parseHTTPRequest (NewReader (conn [reqFourTokens])))
     = Returned \<lparr>Method = ''GET'', URI = ''/a'', Version = ''b'', Headers = [], Body = None\<rparr>
   \<and> firstLine (pending (NewReader (conn [reqFourTokens]))) \<noteq> CRLF
   \<and> Split (firstLine (pending (NewReader (conn [reqFourTokens])))) CHR '' ''
     = [''GET'', ''/a'', ''b'', ''HTTP/1.1'' @ CRLF]
   \<and> TrimSpace (''HTTP/1.1'' @ CRLF) = ''HTTP/1.1''"
  using request_line_tokens [of "NewReader (conn [reqFourTokens])"
      "\<lparr>Method = ''GET'', URI = ''/a'', Version = ''b'', Headers = [], Body = None\<rparr>"]
    four_tokens_example
  by (simp add: NewReader_conn) code_simp


section \<open>The body of a request\<close>

lemma scanContentLength_absent:
  "\<forall>h\<in>set hs. Name h \<noteq> ''content-length'' \<Longrightarrow> scanContentLength hs c = Inr c"
  by (induction hs arbitrary: c) simp_all

text \<open>
  When the loop over the headers ends without an error and there is a header named
  \<open>content-length\<close>, the count is the value of the last such header.
\<close>

definition contentLengths :: "Header list \<Rightarrow> Header list" where
  "contentLengths hs = filter (\<lambda>h. Name h = ''content-length'') hs"

lemma scanContentLength_last:
  "scanContentLength hs c = Inr cl \<Longrightarrow> contentLengths hs \<noteq> [] \<Longrightarrow>
   Atoi (Value (last (contentLengths hs))) = Inr cl"
proof (induction hs arbitrary: c)
  case Nil
  then show ?case by (simp add: contentLengths_def)
next
  case (Cons h hs)
  show ?case
  proof (cases "contentLengths hs = []")
    case False
    from Cons.prems(1) obtain c' where "scanContentLength hs c' = Inr cl"
      by (auto split: if_splits sum.splits)
    from Cons.IH [OF this False] False show ?thesis
      by (simp add: contentLengths_def)
  next
    case True
    with Cons.prems(2) have n: "Name h = ''content-length''"
      by (auto simp: contentLengths_def split: if_splits)
    from True have "\<forall>k\<in>set hs. Name k \<noteq> ''content-length''"
      by (auto simp: contentLengths_def filter_empty_conv)
    then have "\<And>c'. scanContentLength hs c' = Inr c'"
      by (rule scanContentLength_absent)
    with Cons.prems(1) n have "Atoi (Value h) = Inr cl"
      by (auto split: sum.splits)
    with n True show ?thesis by (simp add: contentLengths_def)
  qed
qed

text \<open>The loop ends with an error as soon as one such header does not convert.\<close>

lemma scanContentLength_all_convert:
  "scanContentLength hs c = Inr cl \<Longrightarrow>
   \<forall>h\<in>set (contentLengths hs). \<exists>v. Atoi (Value h) = Inr v"
  by (induction hs arbitrary: c) (auto simp: contentLengths_def split: if_splits sum.splits)

lemma get_head_no_body:
  "parseHTTPRequest b = (Returned req, b') \<Longrightarrow> Method req = ''GET'' \<or> Method req = ''HEAD'' \<Longrightarrow>
   Body req = None"
  using parseLoop_body [of initLocals b req b']
  by (auto simp: parseHTTPRequest_def initLocals_def emptyReq_def)

lemma bounded_body:
  "parseHTTPRequest b = (Returned req, b') \<Longrightarrow> Method req \<noteq> ''GET'' \<Longrightarrow>
   Method req \<noteq> ''HEAD'' \<Longrightarrow>
   \<exists>cl. scanContentLength (Headers req) 0 = Inr cl \<and> Body req = Some \<lparr>buf = b', remaining = cl\<rparr>"
  using parseLoop_body [of initLocals b req b']
  by (auto simp: parseHTTPRequest_def initLocals_def)

text \<open>\<^verbatim>\<open>strings.Contains(s, substr)\<close>, to say what a header value contains.\<close>

fun Contains :: "string \<Rightarrow> string \<Rightarrow> bool" where
  "Contains [] sub = (sub = [])"
| "Contains (c # cs) sub = (take (length sub) (c # cs) = sub \<or> Contains cs sub)"

text \<open>
  A request with both framing headers. Its body in chunked framing is one chunk with
  the payload \<open>abc\<close> and the last chunk.
\<close>

definition reqChunked :: string where
  "reqChunked = ''POST /u HTTP/1.1'' @ CRLF @ ''Transfer-Encoding: chunked'' @ CRLF
     @ ''Content-Length: 4'' @ CRLF @ CRLF
     @ ''3'' @ CRLF @ ''abc'' @ CRLF @ ''0'' @ CRLF @ CRLF"

text \<open>
  Claim C2 as stated fails: the program has no chunked body reader. The request comes
  back with the bounded reader of the length that \<^verbatim>\<open>Content-Length\<close> states, and what a
  consumer reads from it is four raw bytes of the chunked framing, not the payload
  \<open>abc\<close> of the chunk.
\<close>

theorem chunked_not_selected_counterexample:
  "observe 15 (fst (parseHTTPRequest (NewReader (conn [reqChunked]))))
   = Returned (''POST'', ''/u'', ''HTTP/1.1'',
       [\<lparr>Name = ''transfer-encoding'', Value = ''chunked''\<rparr>,
        \<lparr>Name = ''content-length'', Value = ''4''\<rparr>],
       Some (''abc'' @ [CR], Inl EOF))"
  by code_simp

text \<open>
  Claim C2, amended. For every request with a method other than GET and HEAD that
  carries a \<^verbatim>\<open>Transfer-Encoding\<close> header containing \<open>chunked\<close> and a \<^verbatim>\<open>Content-Length\<close>
  header, the parser selects the bounded body reader, on the reader it parsed from,
  with the length that the last \<^verbatim>\<open>Content-Length\<close> header of the request states;
  \<^verbatim>\<open>Transfer-Encoding\<close> has no part in it.
\<close>

theorem chunked_not_selected:
  assumes "parseHTTPRequest b = (Returned req, b')"
    and "Method req \<noteq> ''GET''" and "Method req \<noteq> ''HEAD''"
    and "\<exists>h\<in>set (Headers req). Name h = ''transfer-encoding'' \<and> Contains (Value h) ''chunked''"
    and "\<exists>h\<in>set (Headers req). Name h = ''content-length''"
  shows "\<exists>cl. Atoi (Value (last (contentLengths (Headers req)))) = Inr cl
           \<and> Body req = Some \<lparr>buf = b', remaining = cl\<rparr>"
proof -
  from bounded_body [OF assms(1-3)] obtain cl where
    sc: "scanContentLength (Headers req) 0 = Inr cl"
    and bd: "Body req = Some \<lparr>buf = b', remaining = cl\<rparr>" by blast
  from assms(5) have "contentLengths (Headers req) \<noteq> []"
    by (auto simp: contentLengths_def filter_empty_conv)
  from scanContentLength_last [OF sc this] bd show ?thesis by blast
qed

text \<open>A request with \<^verbatim>\<open>Transfer-Encoding: chunked\<close> and two \<^verbatim>\<open>Content-Length\<close> headers.\<close>

definition reqChunkedTwo :: string where
  "reqChunkedTwo = ''POST /u HTTP/1.1'' @ CRLF @ ''Content-Length: 3'' @ CRLF
     @ ''Transfer-Encoding: gzip, chunked'' @ CRLF @ ''Content-Length: 7'' @ CRLF @ CRLF
     @ ''3'' @ CRLF @ ''abc'' @ CRLF @ ''0'' @ CRLF @ CRLF"

lemma chunked_example:
  "parseHTTPRequest (NewReader (conn [reqChunkedTwo]))
   = (Returned \<lparr>Method = ''POST'', URI = ''/u'', Version = ''HTTP/1.1'',
        Headers = [\<lparr>Name = ''content-length'', Value = ''3''\<rparr>,
                   \<lparr>Name = ''transfer-encoding'', Value = ''gzip, chunked''\<rparr>,
                   \<lparr>Name = ''content-length'', Value = ''7''\<rparr>],
        Body = Some \<lparr>buf = \<lparr>buffered = ''abc'' @ CRLF @ ''0'' @ CRLF @ CRLF, err = None, rd = []\<rparr>,
                      remaining = 7\<rparr>\<rparr>,
      \<lparr>buffered = ''abc'' @ CRLF @ ''0'' @ CRLF @ CRLF, err = None, rd = []\<rparr>)"
  "Contains ''gzip, chunked'' ''chunked''"
  "Atoi ''7'' = Inr 7"
  by code_simp+

theorem chunked_not_selected_witness:
  "parseHTTPRequest (NewReader (conn [reqChunkedTwo]))
   = (Returned \<lparr>Method = ''POST'', URI = ''/u'', Version = ''HTTP/1.1'',
        Headers = [\<lparr>Name = ''content-length'', Value = ''3''\<rparr>,
                   \<lparr>Name = ''transfer-encoding'', Value = ''gzip, chunked''\<rparr>,
                   \<lparr>Name = ''content-length'', Value = ''7''\<rparr>],
        Body = Some \<lparr>buf = \<lparr>buffered = ''abc'' @ CRLF @ ''0'' @ CRLF @ CRLF, err = None, rd = []\<rparr>,
                      remaining = 7\<rparr>\<rparr>,
      \<lparr>buffered = ''abc'' @ CRLF @ ''0'' @ CRLF @ CRLF, err = None, rd = []\<rparr>)
   \<and> Contains ''gzip, chunked'' ''chunked''
   \<and> Atoi (Value (last (contentLengths
         [\<lparr>Name = ''content-length'', Value = ''3''\<rparr>,
          \<lparr>Name = ''transfer-encoding'', Value = ''gzip, chunked''\<rparr>,
          \<lparr>Name = ''content-length'', Value = ''7''\<rparr>]))) = Inr 7"
  using chunked_not_selected [of "NewReader (conn [reqChunkedTwo])"
      "\<lparr>Method = ''POST'', URI = ''/u'', Version = ''HTTP/1.1'',
        Headers = [\<lparr>Name = ''content-length'', Value = ''3''\<rparr>,
                   \<lparr>Name = ''transfer-encoding'', Value = ''gzip, chunked''\<rparr>,
                   \<lparr>Name = ''content-length'', Value = ''7''\<rparr>],
        Body = Some \<lparr>buf = \<lparr>buffered = ''abc'' @ CRLF @ ''0'' @ CRLF @ CRLF, err = None, rd = []\<rparr>,
                      remaining = 7\<rparr>\<rparr>"
      "\<lparr>buffered = ''abc'' @ CRLF @ ''0'' @ CRLF @ CRLF, err = None, rd = []\<rparr>"]
    chunked_example
  by (simp add: contentLengths_def)

section \<open>GET and HEAD\<close>

text \<open>
  A GET request that states a \<^verbatim>\<open>Content-Length\<close>, followed on the same connection by
  a second request; and a GET request after which the peer closes the connection.
\<close>

definition reqGetThenNext :: string where
  "reqGetThenNext = ''GET /a HTTP/1.1'' @ CRLF @ ''Content-Length: 100'' @ CRLF @ CRLF
     @ ''GET /b HTTP/1.1'' @ CRLF @ ''Host: x'' @ CRLF @ CRLF"

definition reqGetAlone :: string where
  "reqGetAlone = ''GET /a HTTP/1.1'' @ CRLF @ ''Host: x'' @ CRLF @ CRLF"

text \<open>
  Claim C3 does not hold of the code. The request comes back without a body, as
  claimed, but the bytes after the header terminator are not left in the reader: the
  iteration that follows the \<^verbatim>\<open>continue\<close> at the empty line calls \<^verbatim>\<open>ReadString\<close> once
  more before the method is looked at, and the line it gets is dropped. Here that
  line is the request line of the next request; what the reader is left with starts
  at \<open>Host: x\<close>. When nothing follows the header at all, the same call fails and no
  request is returned.
\<close>

theorem get_eats_next_line:
  "parseHTTPRequest (NewReader (conn [reqGetThenNext]))
   = (Returned \<lparr>Method = ''GET'', URI = ''/a'', Version = ''HTTP/1.1'',
        Headers = [\<lparr>Name = ''content-length'', Value = ''100''\<rparr>], Body = None\<rparr>,
      \<lparr>buffered = ''Host: x'' @ CRLF @ CRLF, err = None, rd = []\<rparr>)
   \<and> fst (parseHTTPRequest (NewReader (conn [reqGetAlone]))) = Failed (SomethingWentWrong EOF)"
  by code_simp

section \<open>One connection\<close>

text \<open>
  \<^verbatim>\<open>main\<close> accepts a connection and starts \<^verbatim>\<open>go parseHTTPRequest(bufio.NewReader(conn))\<close>;
  its own loop goes back to \<^verbatim>\<open>Accept\<close>. The goroutine makes this one call of the parser,
  on a new buffered reader, drops what the call returns, and ends. \<open>serveConn c\<close> is
  what the goroutine does on the connection \<open>c\<close>: the results of its calls of the
  parser, in order, and the state of the buffered reader when it ends.
\<close>

record connOutcome =
  parserCalls :: "HTTPReq result list"
  lastReader :: Reader

definition serveConn :: "source \<Rightarrow> connOutcome" where
  "serveConn c =
     (case parseHTTPRequest (NewReader c) of
        (res, b) \<Rightarrow> \<lparr>parserCalls = [res], lastReader = b\<rparr>)"

definition reqPipelined :: string where
  "reqPipelined = ''GET /a HTTP/1.1'' @ CRLF @ ''Host: x'' @ CRLF @ CRLF
     @ ''GET /b HTTP/1.1'' @ CRLF @ ''Host: x'' @ CRLF @ ''Connection: close'' @ CRLF @ CRLF"

text \<open>
  Claim C4 as stated fails: on the two pipelined requests delivered as one write, the
  parser is called once, not twice, and when the goroutine ends, bytes of the second
  request still lie in the buffered reader, parsed by no one.
\<close>

theorem pipelined_counterexample:
  "length (parserCalls (serveConn (conn [reqPipelined]))) = 1
   \<and> lastReader (serveConn (conn [reqPipelined]))
     = \<lparr>buffered = ''Host: x'' @ CRLF @ ''Connection: close'' @ CRLF @ CRLF, err = None,
        rd = []\<rparr>"
  by code_simp

text \<open>
  Claim C4, amended. On the two pipelined requests delivered as one write, the one
  call of the parser that the goroutine makes returns the first request: GET \<open>/a\<close>,
  HTTP/1.1, with the header \<open>host: x\<close> and no body. No second request is parsed.
\<close>

theorem pipelined_first_only:
  "parserCalls (serveConn (conn [reqPipelined]))
   = [Returned \<lparr>Method = ''GET'', URI = ''/a'', Version = ''HTTP/1.1'',
        Headers = [\<lparr>Name = ''host'', Value = ''x''\<rparr>], Body = None\<rparr>]"
  by code_simp

section \<open>A negative \<^verbatim>\<open>Content-Length\<close>\<close>

definition reqNegative :: string where
  "reqNegative = ''POST /u HTTP/1.1'' @ CRLF @ ''Content-Length: -5'' @ CRLF @ CRLF
     @ ''more'' @ [LF]"

text \<open>
  Claim C6 does not hold of the code for a value with a minus sign: \<^verbatim>\<open>strconv.Atoi\<close>
  converts \<open>-5\<close> without an error, the parser checks nothing else, and the request
  comes back with a body reader whose count is \<open>-5\<close>.
\<close>

theorem negative_length_accepted:
  "Atoi ''-5'' = Inr (- 5)
   \<and> fst (parseHTTPRequest (NewReader (conn [reqNegative])))
     = Returned \<lparr>Method = ''POST'', URI = ''/u'', Version = ''HTTP/1.1'',
         Headers = [\<lparr>Name = ''content-length'', Value = ''-5''\<rparr>],
         Body = Some \<lparr>buf = \<lparr>buffered = [], err = None, rd = []\<rparr>, remaining = - 5\<rparr>\<rparr>"
  by code_simp

definition reqNegativeBody :: string where
  "reqNegativeBody = ''PUT /u HTTP/1.1'' @ CRLF @ ''Content-Length: -1'' @ CRLF @ CRLF
     @ ''more'' @ [LF] @ ''body''"

text \<open>
  Claim C8 does not hold of the code, by the same defect: a body reader that request
  parsing produces from \<open>Content-Length: -1\<close> has the count \<open>-1\<close> from its creation,
  and the first \<^verbatim>\<open>Read\<close> on it panics on the negative slice bound.
\<close>

theorem negative_remaining:
  "visible (fst (parseHTTPRequest (NewReader (conn [reqNegativeBody]))))
   = Returned (''PUT'', ''/u'', ''HTTP/1.1'',
       [\<lparr>Name = ''content-length'', Value = ''-1''\<rparr>], Some (- 1))
   \<and> observe 511 (fst (parseHTTPRequest (NewReader (conn [reqNegativeBody]))))
     = Returned (''PUT'', ''/u'', ''HTTP/1.1'',
         [\<lparr>Name = ''content-length'', Value = ''-1''\<rparr>],
         Some ([], Inr SliceBoundsOutOfRange))"
  by code_simp

text \<open>
  From a count that is not negative, no sequence of \<^verbatim>\<open>Read\<close> calls (with buffers of the
  sizes \<open>ns\<close>) makes the count grow or go below zero.
\<close>

fun remainings :: "LimitedBodyReader \<Rightarrow> nat list \<Rightarrow> int list" where
  "remainings r [] = [remaining r]"
| "remainings r (n # ns) = remaining r # remainings (snd (Read r n)) ns"

lemma Read_remaining:
  "0 \<le> remaining r \<Longrightarrow>
   0 \<le> remaining (snd (Read r n)) \<and> remaining (snd (Read r n)) \<le> remaining r"
proof (cases "remaining r = 0")
  case True
  then show ?thesis by (simp add: Read_def)
next
  case False
  assume "0 \<le> remaining r"
  with False have pos: "0 < remaining r" by simp
  obtain d e b where br: "bufioRead (buf r) (nat (min (int n) (remaining r))) = ((d, e), b)"
    by (metis surj_pair)
  from bufioRead_length [OF br] pos have "int (length d) \<le> remaining r" by arith
  with pos br show ?thesis
    by (cases e) (simp_all add: Read_def Let_def)
qed

lemma remainings_invariant:
  "0 \<le> remaining r \<Longrightarrow>
   sorted (rev (remainings r ns)) \<and> (\<forall>x\<in>set (remainings r ns). 0 \<le> x \<and> x \<le> remaining r)"
proof (induction ns arbitrary: r)
  case Nil
  then show ?case by simp
next
  case (Cons n ns)
  from Read_remaining [OF Cons.prems, of n]
  have a: "0 \<le> remaining (snd (Read r n))" and b: "remaining (snd (Read r n)) \<le> remaining r"
    by simp_all
  from Cons.IH [OF a] b Cons.prems show ?case
    by (auto simp: sorted_append)
qed

section \<open>The earlier version of the parser on the buffered reader\<close>

text \<open>
  The repository holds two earlier programs with a function of the same name. Their
  \<^verbatim>\<open>HTTPReq\<close> has no \<^verbatim>\<open>Body\<close>.
\<close>

record HTTPReqH =
  MethodH :: string
  URIH :: string
  VersionH :: string
  HeadersH :: "Header list"

definition emptyReqH :: HTTPReqH where
  "emptyReqH = \<lparr>MethodH = [], URIH = [], VersionH = [], HeadersH = []\<rparr>"

text \<open>The request line and a header line as both earlier programs take them apart;
  the header name is trimmed but not lowered.\<close>

definition requestLineH :: "string \<Rightarrow> HTTPReqH \<Rightarrow> HTTPReqH result" where
  "requestLineH line req =
     (let lineData = Split line CHR '' ''
      in if length lineData < 3 then Panicked IndexOutOfRange
         else Returned (req\<lparr>MethodH := TrimSpace (lineData ! 0),
                            URIH := TrimSpace (lineData ! 1),
                            VersionH := TrimSpace (lineData ! 2)\<rparr>))"

definition headerLineH :: "string \<Rightarrow> Header result" where
  "headerLineH line =
     (let lineData = SplitN2 line CHR '':''
      in if length lineData < 2 then Panicked IndexOutOfRange
         else Returned \<lparr>Name = TrimSpace (lineData ! 0), Value = TrimSpace (lineData ! 1)\<rparr>)"

text \<open>
  The version that reads lines from a \<^verbatim>\<open>*bufio.Reader\<close> and returns the header only:
  its local variables, one iteration of its loop from the return of
  \<^verbatim>\<open>reader.ReadString('\n')\<close> on, and the loop. It leaves the loop at the empty line
  without another read.
\<close>

record localsL =
  httpReqL :: HTTPReqH
  headerArrL :: "Header list"
  totalBytes :: nat
  countL :: nat

definition initLocalsL :: localsL where
  "initLocalsL = \<lparr>httpReqL = emptyReqH, headerArrL = [], totalBytes = 0, countL = 0\<rparr>"

datatype stepL = ContinueL localsL | DoneL "HTTPReqH result"

definition iterationL :: "localsL \<Rightarrow> string \<times> error option \<Rightarrow> stepL" where
  "iterationL v r =
     (case r of
        (b, Some e) \<Rightarrow> DoneL (Failed (SomethingWentWrong e))
      | (b, None) \<Rightarrow>
          if totalBytes v + length b > 8192 then DoneL (Failed BufferIsTooLarge)
          else if b = CRLF then DoneL (Returned ((httpReqL v)\<lparr>HeadersH := headerArrL v\<rparr>))
          else if countL v = 0
          then (case requestLineH b (httpReqL v) of
                  Returned req \<Rightarrow>
                    ContinueL (v\<lparr>httpReqL := req,
                                 totalBytes := totalBytes v + length b,
                                 countL := countL v + 1\<rparr>)
                | Failed x \<Rightarrow> DoneL (Failed x)
                | Panicked p \<Rightarrow> DoneL (Panicked p))
          else (case headerLineH b of
                  Returned h \<Rightarrow>
                    ContinueL (v\<lparr>headerArrL := headerArrL v @ [h],
                                 totalBytes := totalBytes v + length b,
                                 countL := countL v + 1\<rparr>)
                | Failed x \<Rightarrow> DoneL (Failed x)
                | Panicked p \<Rightarrow> DoneL (Panicked p)))"

lemma iterationL_Continue:
  "iterationL v (b, e) = ContinueL v' \<Longrightarrow>
   e = None \<and> b \<noteq> CRLF \<and> totalBytes v' = totalBytes v + length b \<and> totalBytes v' \<le> 8192"
  by (auto simp: iterationL_def split: option.splits if_splits result.splits)

function parseLoopL :: "localsL \<Rightarrow> Reader \<Rightarrow> HTTPReqH result \<times> Reader" where
  "parseLoopL v b =
     (case ReadString b LF of
        (r, b') \<Rightarrow>
          (case iterationL v r of
             ContinueL v' \<Rightarrow> parseLoopL v' b'
           | DoneL res \<Rightarrow> (res, b')))"
  by pat_completeness auto
termination
proof (relation "measure (\<lambda>(v, b). 8193 - totalBytes v)")
  show "wf (measure (\<lambda>(v, b). 8193 - totalBytes v))"
    by simp
next
  fix v :: localsL and b :: Reader and r :: "string \<times> error option"
    and b' :: Reader and v' :: localsL
  assume r: "(r, b') = ReadString b LF" and it: "iterationL v r = ContinueL v'"
  obtain bytes e where re: "r = (bytes, e)" by (cases r)
  from iterationL_Continue [OF it [unfolded re]]
  have e: "e = None" and hb: "totalBytes v' = totalBytes v + length bytes"
    and le: "totalBytes v' \<le> 8192"
    by simp_all
  from r re e have "ReadString b LF = ((bytes, None), b')" by simp
  from ReadString_line_nonempty [OF this] have "0 < length bytes" by simp
  with hb le
  show "((v', b'), (v, b)) \<in> measure (\<lambda>(v, b). 8193 - totalBytes v)"
    by (simp del: length_greater_0_conv)
qed

declare parseLoopL.simps [simp del]

definition parseHTTPRequestL :: "Reader \<Rightarrow> HTTPReqH result \<times> Reader" where
  "parseHTTPRequestL reader = parseLoopL initLocalsL reader"

text \<open>
  What is said of the cap (claim C1) and of the request line (claim C5, amended)
  holds of this version as well, on the same inputs.
\<close>

lemma parseLoopL_header_bound:
  "fst (parseLoopL v b) = Returned req \<Longrightarrow>
   \<exists>n. headerSize (splitLines (pending b)) = Some n \<and> totalBytes v + n \<le> 8192"
proof (induction v b rule: parseLoopL.induct)
  case (1 v b)
  obtain l e b' where rs: "ReadString b LF = ((l, e), b')" by (metis surj_pair)
  have spec: "e = None \<Longrightarrow> splitLines (pending b) = l # splitLines (pending b')"
  proof -
    assume e: "e = None"
    from ReadString_spec [OF rs] e
    have lf: "LF \<in> set (pending b)"
      and l: "l = takeWhile (\<lambda>c. c \<noteq> LF) (pending b) @ [LF]"
      and p': "pending b' = tl (dropWhile (\<lambda>c. c \<noteq> LF) (pending b))"
      by (auto split: if_splits)
    from splitLines_first [OF lf] l p' show ?thesis by simp
  qed
  show ?case
  proof (cases "iterationL v (l, e)")
    case (DoneL res)
    with rs "1.prems" have "res = Returned req" by (simp add: parseLoopL.simps [of v b])
    with DoneL have "e = None" and "l = CRLF" and "\<not> 8192 < totalBytes v + length l"
      by (auto simp: iterationL_def split: option.splits if_splits result.splits)
    with spec show ?thesis by simp
  next
    case (ContinueL v')
    from iterationL_Continue [OF ContinueL]
    have e: "e = None" and nl: "l \<noteq> CRLF" and hb: "totalBytes v' = totalBytes v + length l"
      by simp_all
    from rs ContinueL "1.prems" have "fst (parseLoopL v' b') = Returned req"
      by (simp add: parseLoopL.simps [of v b])
    from "1.IH" [OF rs [symmetric] ContinueL this]
    obtain n where "headerSize (splitLines (pending b')) = Some n"
      and "totalBytes v' + n \<le> 8192" by blast
    with spec [OF e] nl hb show ?thesis by simp
  qed
qed

lemma header_cap_L:
  "(fst (parseHTTPRequestL b) = Returned req \<longrightarrow>
      (\<exists>n. headerSize (splitLines (pending b)) = Some n \<and> n \<le> 8192))
   \<and> (ReadString c LF = ((l, None), c') \<and> 8192 < totalBytes v + length l \<longrightarrow>
      parseLoopL v c = (Failed BufferIsTooLarge, c'))"
proof (intro conjI impI)
  assume "fst (parseHTTPRequestL b) = Returned req"
  then have "fst (parseLoopL initLocalsL b) = Returned req" by (simp add: parseHTTPRequestL_def)
  from parseLoopL_header_bound [OF this]
  show "\<exists>n. headerSize (splitLines (pending b)) = Some n \<and> n \<le> 8192"
    by (simp add: initLocalsL_def)
next
  assume "ReadString c LF = ((l, None), c') \<and> 8192 < totalBytes v + length l"
  then show "parseLoopL v c = (Failed BufferIsTooLarge, c')"
    by (simp add: parseLoopL.simps [of v c] iterationL_def)
qed

lemma header_cap_L_reads_on:
  "parseHTTPRequestL (NewReader (conn [longLine, ''b'', [LF]]))
   = (Failed BufferIsTooLarge, \<lparr>buffered = [], err = None, rd = []\<rparr>)"
  using longLine_facts(1)
  by (simp add: parseHTTPRequestL_def parseLoopL.simps ReadString_longLine iterationL_def
      initLocalsL_def)

lemma iterationL_keeps:
  "0 < countL v \<Longrightarrow> iterationL v r = ContinueL v' \<Longrightarrow>
   0 < countL v' \<and> httpReqL v' = httpReqL v"
  by (auto simp: iterationL_def split: prod.splits option.splits result.splits if_splits)

lemma iterationL_Returned:
  "iterationL v r = DoneL (Returned req) \<Longrightarrow>
   MethodH req = MethodH (httpReqL v) \<and> URIH req = URIH (httpReqL v)
   \<and> VersionH req = VersionH (httpReqL v) \<and> HeadersH req = headerArrL v"
  by (auto simp: iterationL_def split: prod.splits option.splits result.splits if_splits)

lemma parseLoopL_fields:
  "0 < countL v \<Longrightarrow> fst (parseLoopL v b) = Returned req \<Longrightarrow>
   MethodH req = MethodH (httpReqL v) \<and> URIH req = URIH (httpReqL v)
   \<and> VersionH req = VersionH (httpReqL v)"
proof (induction v b rule: parseLoopL.induct)
  case (1 v b)
  obtain r b' where rs: "ReadString b LF = (r, b')" by (cases "ReadString b LF")
  show ?case
  proof (cases "iterationL v r")
    case (ContinueL v')
    from iterationL_keeps [OF "1.prems"(1) ContinueL]
    have c: "0 < countL v'" and h: "httpReqL v' = httpReqL v" by simp_all
    from rs ContinueL "1.prems"(2) have "fst (parseLoopL v' b') = Returned req"
      by (simp add: parseLoopL.simps [of v b])
    from "1.IH" [OF rs [symmetric] ContinueL c this] h show ?thesis by simp
  next
    case (DoneL res)
    with rs "1.prems"(2) have "iterationL v r = DoneL (Returned req)"
      by (simp add: parseLoopL.simps [of v b])
    from iterationL_Returned [OF this] show ?thesis by simp
  qed
qed

lemma request_line_tokens_L:
  assumes "fst (parseHTTPRequestL b) = Returned req"
    and "firstLine (pending b) \<noteq> CRLF"
  shows "3 \<le> length (Split (firstLine (pending b)) CHR '' '')
         \<and> MethodH req = TrimSpace (Split (firstLine (pending b)) CHR '' '' ! 0)
         \<and> URIH req = TrimSpace (Split (firstLine (pending b)) CHR '' '' ! 1)
         \<and> VersionH req = TrimSpace (Split (firstLine (pending b)) CHR '' '' ! 2)"
proof -
  let ?l = "firstLine (pending b)"
  from assms(1) have ret: "fst (parseLoopL initLocalsL b) = Returned req"
    by (simp add: parseHTTPRequestL_def)
  obtain l e b' where rs: "ReadString b LF = ((l, e), b')" by (metis surj_pair)
  show ?thesis
  proof (cases "iterationL initLocalsL (l, e)")
    case (DoneL res)
    with rs ret have "res = Returned req" by (simp add: parseLoopL.simps [of initLocalsL b])
    with DoneL have e: "e = None" and "l = CRLF"
      by (auto simp: iterationL_def split: option.splits if_splits result.splits)
    with ReadString_spec [OF rs] have "?l = CRLF"
      by (auto simp: firstLine_def split: if_splits)
    with assms(2) show ?thesis by simp
  next
    case (ContinueL v')
    from iterationL_Continue [OF ContinueL] have e: "e = None" by simp
    with ReadString_spec [OF rs] have l: "l = ?l" by (auto simp: firstLine_def split: if_splits)
    from ContinueL e l
    have len: "3 \<le> length (Split ?l CHR '' '')"
      and hv: "httpReqL v' = emptyReqH\<lparr>MethodH := TrimSpace (Split ?l CHR '' '' ! 0),
                                      URIH := TrimSpace (Split ?l CHR '' '' ! 1),
                                      VersionH := TrimSpace (Split ?l CHR '' '' ! 2)\<rparr>"
      and c: "0 < countL v'"
      by (auto simp: iterationL_def initLocalsL_def requestLineH_def Let_def
          split: result.splits if_splits)
    from rs ContinueL ret have "fst (parseLoopL v' b') = Returned req"
      by (simp add: parseLoopL.simps [of initLocalsL b])
    from parseLoopL_fields [OF c this] len show ?thesis
      by (simp add: hv)
  qed
qed

lemma request_line_tokens_L_examples:
  "fst (parseHTTPRequestL (NewReader (conn [reqFourTokens])))
   = Returned \<lparr>MethodH = ''GET'', URIH = ''/a'', VersionH = ''b'', HeadersH = []\<rparr>"
  "fst (parseHTTPRequestL (NewReader (conn [reqTwoTokens]))) = Panicked IndexOutOfRange"
  by code_simp+

section \<open>The earliest version of the parser, on the connection itself\<close>

text \<open>
  \<^verbatim>\<open>bytes.Index(s, sep)\<close> where \<open>sep\<close> occurs in \<open>s\<close>: the place of its first
  occurrence. (The program calls it only after \<^verbatim>\<open>strings.Contains\<close> has said that
  \<open>sep\<close> occurs.)
\<close>

fun Index :: "string \<Rightarrow> string \<Rightarrow> nat" where
  "Index [] sep = 0"
| "Index (c # cs) sep = (if take (length sep) (c # cs) = sep then 0 else Suc (Index cs sep))"

text \<open>
  The loop over the bytes of \<^verbatim>\<open>header\<close>: a byte is added to \<^verbatim>\<open>line\<close>, and when \<^verbatim>\<open>line\<close>
  ends in \<open>\r\n\<close> it is taken apart, as the request line when \<^verbatim>\<open>count\<close> is 0 and as a
  header line otherwise, and \<^verbatim>\<open>line\<close> starts again. What is left in \<^verbatim>\<open>line\<close> when the
  bytes are used up is not looked at.
\<close>

fun headerLoop ::
  "string \<Rightarrow> string \<Rightarrow> nat \<Rightarrow> HTTPReqH \<Rightarrow> Header list \<Rightarrow> (HTTPReqH \<times> Header list) result" where
  "headerLoop [] line cnt req hs = Returned (req, hs)"
| "headerLoop (c # cs) line cnt req hs =
     (if length (line @ [c]) \<ge> 2 \<and> last line = CR \<and> c = LF
      then (if cnt = 0
            then (case requestLineH (line @ [c]) req of
                    Returned req' \<Rightarrow> headerLoop cs [] (cnt + 1) req' hs
                  | Failed e \<Rightarrow> Failed e
                  | Panicked p \<Rightarrow> Panicked p)
            else (case headerLineH (line @ [c]) of
                    Returned h \<Rightarrow> headerLoop cs [] (cnt + 1) req (hs @ [h])
                  | Failed e \<Rightarrow> Failed e
                  | Panicked p \<Rightarrow> Panicked p))
      else headerLoop cs (line @ [c]) cnt req hs)"

text \<open>
  What the program does once \<^verbatim>\<open>fullRequest\<close> contains \<open>\r\n\r\n\<close>: \<^verbatim>\<open>header\<close> is what
  comes before its first occurrence, the loop above runs over it, and the request
  with the headers found is returned.
\<close>

definition headerEnd :: string where
  "headerEnd = CRLF @ CRLF"

definition parseHeader :: "string \<Rightarrow> HTTPReqH result" where
  "parseHeader fullRequest =
     (case headerLoop (take (Index fullRequest headerEnd) fullRequest) [] 0 emptyReqH [] of
        Returned (req, hs) \<Rightarrow> Returned (req\<lparr>HeadersH := hs\<rparr>)
      | Failed e \<Rightarrow> Failed e
      | Panicked p \<Rightarrow> Panicked p)"

text \<open>
  The loop of this \<^verbatim>\<open>parseHTTPRequest\<close>: \<^verbatim>\<open>conn.Read\<close> into a buffer of 8192 bytes; an
  error ends the loop and the request, still empty, is returned; else the bytes are
  added to \<^verbatim>\<open>fullRequest\<close>; more than 8192 bytes in all return the empty request; if
  \<open>\r\n\r\n\<close> is there the header is taken apart, else the loop reads again. The
  function returns no error, and closes the connection when it returns.
\<close>

function connLoop :: "source \<Rightarrow> string \<Rightarrow> HTTPReqH result" where
  "connLoop c fullRequest =
     (case srcRead c 8192 of
        ((d, Some e), c') \<Rightarrow> Returned emptyReqH
      | ((d, None), c') \<Rightarrow>
          if length (fullRequest @ d) > 8192 then Returned emptyReqH
          else if Contains (fullRequest @ d) headerEnd then parseHeader (fullRequest @ d)
          else connLoop c' (fullRequest @ d))"
  by pat_completeness auto
termination
proof (relation "measure (\<lambda>(c, fullRequest). srcSize c)")
  show "wf (measure (\<lambda>(c, fullRequest). srcSize c))" by simp
next
  fix c :: source and fullRequest :: string and x :: "(string \<times> error option) \<times> source"
    and r :: "string \<times> error option" and c' :: source and d :: string and e :: "error option"
  assume "(r, c') = srcRead c 8192" and "(d, e) = r" and "e = None"
  then have "srcRead c 8192 = ((d, None), c')" by simp
  from srcRead_smaller [OF _ this]
  show "((c', fullRequest @ d), (c, fullRequest)) \<in> measure (\<lambda>(c, fullRequest). srcSize c)"
    by simp
qed

declare connLoop.simps [simp del]

definition parseHTTPRequestC :: "source \<Rightarrow> HTTPReqH result" where
  "parseHTTPRequestC c = connLoop c []"


lemma take_whole_length: "take (length t) ys = t \<Longrightarrow> length t \<le> length ys"
proof -
  assume a: "take (length t) ys = t"
  have "length (take (length t) ys) \<le> length ys" by simp
  with a show ?thesis by simp
qed

lemma take_append_le: "n \<le> length xs \<Longrightarrow> take n (xs @ ys) = take n xs"
  by simp

lemma Contains_length: "Contains xs t \<Longrightarrow> length t \<le> length xs"
proof (induction xs)
  case Nil
  then show ?case by simp
next
  case (Cons c cs)
  show ?case
  proof (cases "take (length t) (c # cs) = t")
    case True
    then show ?thesis by (rule take_whole_length)
  next
    case False
    with Cons show ?thesis by simp
  qed
qed

lemma take_prefix_append: "take n xs = t \<Longrightarrow> length t = n \<Longrightarrow> take n (xs @ ys) = t"
  by (induction xs arbitrary: n t) (auto simp: take_Cons split: nat.splits)

lemma Contains_append: "Contains xs t \<Longrightarrow> Contains (xs @ ys) t"
proof (induction xs)
  case Nil
  then show ?case by (cases ys) simp_all
next
  case (Cons c cs)
  show ?case
  proof (cases "take (length t) (c # cs) = t")
    case True
    from take_prefix_append [OF True refl, of ys] show ?thesis by simp
  next
    case False
    with Cons show ?thesis by simp
  qed
qed

lemma Index_append: "Contains xs t \<Longrightarrow> Index (xs @ ys) t = Index xs t"
proof (induction xs)
  case Nil
  then show ?case by (cases ys) simp_all
next
  case (Cons c cs)
  show ?case
  proof (cases "take (length t) (c # cs) = t")
    case True
    from take_prefix_append [OF True refl, of ys] True show ?thesis by simp
  next
    case False
    with Cons.prems have ct: "Contains cs t" by simp
    from Contains_length [OF ct] have "length t \<le> length (c # cs)" by simp
    from take_append_le [OF this, of ys] False
    have "take (length t) (c # cs @ ys) \<noteq> t" by simp
    with False Cons.IH [OF ct] show ?thesis by simp
  qed
qed

lemma Index_le: "Index xs t \<le> length xs"
  by (induction xs) auto

lemma parseHeader_append:
  "Contains xs headerEnd \<Longrightarrow> parseHeader (xs @ ys) = parseHeader xs"
  using Index_le [of xs headerEnd]
  by (simp add: parseHeader_def Index_append)

text \<open>One turn of the loop on a connection whose next delivery is \<open>d\<close>.\<close>

lemma connLoop_delivery:
  assumes "d \<noteq> []"
  shows "connLoop ((d, None) # rest) full =
     (if length (full @ take 8192 d) > 8192 then Returned emptyReqH
      else if Contains (full @ take 8192 d) headerEnd then parseHeader (full @ take 8192 d)
      else connLoop (if length d \<le> 8192 then rest else (drop 8192 d, None) # rest)
             (full @ take 8192 d))"
proof (cases "length d \<le> 8192")
  case True
  with assms show ?thesis by (simp add: connLoop.simps [of "(d, None) # rest" full])
next
  case False
  with assms show ?thesis by (simp add: connLoop.simps [of "(d, None) # rest" full])
qed

lemma connLoop_spec:
  "cleanSrc c \<Longrightarrow> length (full @ srcData c) \<le> 8192 \<Longrightarrow> \<not> Contains full headerEnd \<Longrightarrow>
   connLoop c full =
     (if Contains (full @ srcData c) headerEnd then parseHeader (full @ srcData c)
      else Returned emptyReqH)"
proof (induction c full rule: connLoop.induct)
  case (1 c full)
  obtain d e c' where sr: "srcRead c 8192 = ((d, e), c')" by (metis surj_pair)
  note cl = srcRead_clean [OF "1.prems"(1) sr] and dt = srcRead_data [OF sr]
  show ?case
  proof (cases e)
    case (Some x)
    with cl dt have "srcData c = []" by simp
    with Some sr "1.prems"(3) show ?thesis by (simp add: connLoop.simps [of c full])
  next
    case None
    with dt have sd: "srcData c = d @ srcData c'" by simp
    with "1.prems"(2) have len: "\<not> 8192 < length (full @ d)" by simp
    show ?thesis
    proof (cases "Contains (full @ d) headerEnd")
      case True
      from Contains_append [OF True, of "srcData c'"] parseHeader_append [OF True, of "srcData c'"]
        None sr len True
      show ?thesis by (simp add: connLoop.simps [of c full] sd)
    next
      case False
      from cl have "cleanSrc c'" by simp
      moreover from "1.prems"(2) sd have "length ((full @ d) @ srcData c') \<le> 8192" by simp
      ultimately have "connLoop c' (full @ d) =
          (if Contains ((full @ d) @ srcData c') headerEnd
           then parseHeader ((full @ d) @ srcData c') else Returned emptyReqH)"
        using "1.IH" [OF sr [symmetric] refl None _ _ _ _ False] len False by simp
      with None sr len False show ?thesis by (simp add: connLoop.simps [of c full] sd)
    qed
  qed
qed

lemma not_Contains_Nil: "\<not> Contains [] headerEnd"
  by (simp add: headerEnd_def CRLF_def)

lemma conn_fragmentation:
  assumes "concat fs1 = concat fs2" and "length (concat fs1) \<le> 8192"
  shows "parseHTTPRequestC (conn fs1) = parseHTTPRequestC (conn fs2)"
proof -
  have c: "\<And>fs. cleanSrc (conn fs)" by (simp add: cleanSrc_def conn_def list_all_iff)
  have "\<And>fs. length (concat fs) \<le> 8192 \<Longrightarrow>
      connLoop (conn fs) [] =
        (if Contains (concat fs) headerEnd then parseHeader (concat fs) else Returned emptyReqH)"
    using connLoop_spec [OF c _ not_Contains_Nil] by (simp add: srcData_conn)
  with assms show ?thesis
    by (simp add: parseHTTPRequestC_def)
qed


section \<open>The two parsers and the way the bytes arrive\<close>

text \<open>
  A request of 28 bytes, cut after its sixth byte, and followed on the connection by
  the 8193 bytes of \<open>longLine\<close>.
\<close>

definition reqHead :: string where
  "reqHead = ''GET /a HTTP/1.1'' @ CRLF @ ''Host: x'' @ CRLF @ CRLF"

definition reqHeadRest :: string where
  "reqHeadRest = '' HTTP/1.1'' @ CRLF @ ''Host: x'' @ CRLF @ CRLF"

lemma reqHead_facts:
  "reqHead = ''GET /a'' @ reqHeadRest"
  "length reqHead = 28"
  "length reqHeadRest = 22"
  "Contains reqHead headerEnd"
  "\<not> Contains ''GET /a'' headerEnd"
  "parseHeader reqHead
   = Returned \<lparr>MethodH = ''GET'', URIH = ''/a'', VersionH = ''HTTP/1.1'', HeadersH = []\<rparr>"
  by code_simp+

lemma conn_one_write:
  "parseHTTPRequestC (conn [reqHead @ longLine])
   = Returned \<lparr>MethodH = ''GET'', URIH = ''/a'', VersionH = ''HTTP/1.1'', HeadersH = []\<rparr>"
proof -
  have ne: "reqHead @ longLine \<noteq> []" using longLine_facts(3) by simp
  have t: "take 8192 (reqHead @ longLine) = reqHead @ take 8164 longLine"
    by (simp add: reqHead_facts(2))
  have l: "length (take 8192 (reqHead @ longLine)) = 8192"
    by (simp add: reqHead_facts(2) longLine_facts(1))
  from Contains_append [OF reqHead_facts(4)] parseHeader_append [OF reqHead_facts(4)]
  have "Contains (take 8192 (reqHead @ longLine)) headerEnd"
    and "parseHeader (take 8192 (reqHead @ longLine)) = parseHeader reqHead"
    unfolding t by simp_all
  with connLoop_delivery [OF ne, of "[]" "[]"] l reqHead_facts(6)
  show ?thesis by (simp add: parseHTTPRequestC_def conn_def)
qed

lemma connLoop_over:
  "d \<noteq> [] \<Longrightarrow> 8192 < length full + length (take 8192 d) \<Longrightarrow>
   connLoop ((d, None) # rest) full = Returned emptyReqH"
  using connLoop_delivery [of d rest full] by simp

lemma connLoop_miss:
  "d \<noteq> [] \<Longrightarrow> length d \<le> 8192 \<Longrightarrow> length full + length d \<le> 8192 \<Longrightarrow>
   \<not> Contains (full @ d) headerEnd \<Longrightarrow>
   connLoop ((d, None) # rest) full = connLoop rest (full @ d)"
  using connLoop_delivery [of d rest full] by simp

lemma conn_two_writes:
  "parseHTTPRequestC (conn [''GET /a'', reqHeadRest @ longLine]) = Returned emptyReqH"
proof -
  have ne: "reqHeadRest @ longLine \<noteq> []" using longLine_facts(3) by simp
  have l: "length (take 8192 (reqHeadRest @ longLine)) = 8192"
    by (simp add: reqHead_facts(3) longLine_facts(1))
  have nc: "\<not> Contains ([] @ ''GET /a'') headerEnd" using reqHead_facts(5) by simp
  have first: "connLoop ((''GET /a'', None) # [(reqHeadRest @ longLine, None)]) []
      = connLoop [(reqHeadRest @ longLine, None)] ([] @ ''GET /a'')"
    by (rule connLoop_miss [OF _ _ _ nc]) simp_all
  have "8192 < length ([] @ ''GET /a'') + length (take 8192 (reqHeadRest @ longLine))"
    unfolding l by simp
  from connLoop_over [OF ne this, of "[]"] first
  show ?thesis by (simp add: parseHTTPRequestC_def conn_def)
qed

text \<open>
  Claim C9 as stated fails, on the parser that reads the connection itself. The same
  bytes are delivered as one write and as two writes, of 6 bytes and of the rest. As
  one write the first \<^verbatim>\<open>Read\<close> brings 8192 bytes with the whole header among them and
  the request is parsed. As two writes the first \<^verbatim>\<open>Read\<close> brings 6 bytes and the second
  8192 more, the check of \<^verbatim>\<open>len(fullRequest) > 8192\<close> comes before the search for the
  end of the header, and the empty request is returned.
\<close>

theorem fragmentation_invariant_counterexample:
  "concat [''GET /a'', reqHeadRest @ longLine] = concat [reqHead @ longLine]
   \<and> parseHTTPRequestC (conn [reqHead @ longLine])
     = Returned \<lparr>MethodH = ''GET'', URIH = ''/a'', VersionH = ''HTTP/1.1'', HeadersH = []\<rparr>
   \<and> parseHTTPRequestC (conn [''GET /a'', reqHeadRest @ longLine]) = Returned emptyReqH"
  using conn_one_write conn_two_writes by (simp add: reqHead_facts(1))

text \<open>
  Claim C9, amended. Two runs over the same bytes, cut into fragments in any two ways
  (one byte at a time and a single write are two of them), end alike on the parser on
  the buffered reader: with the same error or panic, or with requests of the same
  method, target, version and headers whose bodies, read to the end, give the same
  bytes and end the same way. On the parser that reads the connection itself the
  two runs return the same request when the bytes are at most 8192 in all.
\<close>

theorem fragmentation_invariant:
  assumes "concat fs1 = concat fs2"
  shows "observe n1 (fst (parseHTTPRequest (NewReader (conn fs1))))
         = observe n2 (fst (parseHTTPRequest (NewReader (conn fs2))))
       \<and> (length (concat fs1) \<le> 8192 \<longrightarrow>
            parseHTTPRequestC (conn fs1) = parseHTTPRequestC (conn fs2))"
  using bufio_fragmentation [OF assms] conn_fragmentation [OF assms] by simp

lemma conn_example:
  "parseHTTPRequestC (conn [''GET /a HTTP/1.1'' @ CRLF @ ''Host: x'' @ CRLF
      @ ''Accept: */*'' @ CRLF @ CRLF @ ''tail''])
   = Returned \<lparr>MethodH = ''GET'', URIH = ''/a'', VersionH = ''HTTP/1.1'',
       HeadersH = [\<lparr>Name = ''Host'', Value = ''x''\<rparr>]\<rparr>"
  by code_simp

theorem fragmentation_invariant_witness:
  "concat [''POST /u HTTP/1.1'' @ CRLF @ ''Content-Length: 5'' @ CRLF @ CRLF @ ''x'' @ [LF]
       @ ''hello, world'']
   = concat [''POST /u HT'', ''TP/1.1'' @ [CR], [LF] @ ''Content-Length: 5'' @ CRLF @ [CR],
       [LF] @ ''x'' @ [LF] @ ''hel'', ''lo, world'']
   \<and> observe 2 (fst (parseHTTPRequest (NewReader (conn
        [''POST /u HT'', ''TP/1.1'' @ [CR], [LF] @ ''Content-Length: 5'' @ CRLF @ [CR],
         [LF] @ ''x'' @ [LF] @ ''hel'', ''lo, world'']))))
     = Returned (''POST'', ''/u'', ''HTTP/1.1'', [\<lparr>Name = ''content-length'', Value = ''5''\<rparr>],
         Some (''hello'', Inl EOF))
   \<and> concat [''GET /a HTTP/1.1'' @ CRLF @ ''Host: x'' @ CRLF @ ''Accept: */*'' @ CRLF @ CRLF
       @ ''tail'']
     = concat [''GET /a HTTP/1.1'' @ CRLF @ ''Host: x'' @ [CR], [LF] @ ''Accept: */*'' @ CRLF
       @ [CR], [LF] @ ''ta'', ''il'']
   \<and> length (concat [''GET /a HTTP/1.1'' @ CRLF @ ''Host: x'' @ CRLF @ ''Accept: */*'' @ CRLF
       @ CRLF @ ''tail'']) \<le> 8192
   \<and> parseHTTPRequestC (conn [''GET /a HTTP/1.1'' @ CRLF @ ''Host: x'' @ [CR],
        [LF] @ ''Accept: */*'' @ CRLF @ [CR], [LF] @ ''ta'', ''il''])
     = Returned \<lparr>MethodH = ''GET'', URIH = ''/a'', VersionH = ''HTTP/1.1'',
         HeadersH = [\<lparr>Name = ''Host'', Value = ''x''\<rparr>]\<rparr>"
  using fragmentation_invariant [of
      "[''POST /u HTTP/1.1'' @ CRLF @ ''Content-Length: 5'' @ CRLF @ CRLF @ ''x'' @ [LF]
        @ ''hello, world'']"
      "[''POST /u HT'', ''TP/1.1'' @ [CR], [LF] @ ''Content-Length: 5'' @ CRLF @ [CR],
        [LF] @ ''x'' @ [LF] @ ''hel'', ''lo, world'']" 7 2]
    fragmentation_invariant [of
      "[''GET /a HTTP/1.1'' @ CRLF @ ''Host: x'' @ CRLF @ ''Accept: */*'' @ CRLF @ CRLF
        @ ''tail'']"
      "[''GET /a HTTP/1.1'' @ CRLF @ ''Host: x'' @ [CR], [LF] @ ''Accept: */*'' @ CRLF
        @ [CR], [LF] @ ''ta'', ''il'']" 0 0]
    fragmentation_example conn_example
  by (simp add: CRLF_def)

text \<open>
  What is said of the request line (claim C5) shows on this parser too: a request line
  of four pieces is accepted, one of two pieces makes the program panic.
\<close>

lemma request_line_tokens_C_examples:
  "parseHTTPRequestC (conn [''GET /a b HTTP/1.1'' @ CRLF @ ''Host: x'' @ CRLF @ CRLF])
   = Returned \<lparr>MethodH = ''GET'', URIH = ''/a'', VersionH = ''b'', HeadersH = []\<rparr>"
  "parseHTTPRequestC (conn [''GET /a'' @ CRLF @ ''Host: x'' @ CRLF @ CRLF])
   = Panicked IndexOutOfRange"
  by code_simp+

end
